theory Spec2Isabelle
  imports Main
begin

section \<open>DNS data as the resolver reads it\<close>

text \<open>
  The resolver (\<^verbatim>\<open>dnsresolver.py\<close>) reads four things of a decoded reply: its response
  code and its answer, authority and additional sections, each a list of record sets.
  A record set has an owner name and records of one type; the library keeps the records
  of a set homogeneous, so the data of a set is tagged by its type: the addresses of an
  A set, the targets of an NS set (in the text form of \<^verbatim>\<open>to_text()\<close>), the text form of
  the records of any other set. An A set of a class other than IN and CH is decoded
  generically: its records have a text form and no \<^verbatim>\<open>address\<close> attribute.
\<close>

datatype rcode = NOERROR | FORMERR | SERVFAIL | NXDOMAIN | NOTIMP | REFUSED | RCODE nat

datatype rdatatype = rdatatype_A | rdatatype_NS | rdatatype_CNAME | rdatatype_other nat

datatype rdataset =
    A_rdatas "string list"
  | A_generic_rdatas "string list"
  | NS_rdatas "string list"
  | CNAME_rdatas "string list"
  | Other_rdatas nat "string list"

datatype rrset = RRset (name: string) (rdatas: rdataset)

fun rdtype_of :: "rdataset \<Rightarrow> rdatatype" where
  "rdtype_of (A_rdatas _) = rdatatype_A"
| "rdtype_of (A_generic_rdatas _) = rdatatype_A"
| "rdtype_of (NS_rdatas _) = rdatatype_NS"
| "rdtype_of (CNAME_rdatas _) = rdatatype_CNAME"
| "rdtype_of (Other_rdatas t _) = rdatatype_other t"

definition rdtype :: "rrset \<Rightarrow> rdatatype" where
  "rdtype rs = rdtype_of (rdatas rs)"

text \<open>\<^verbatim>\<open>[rr.target.to_text() for rr in rrset]\<close>, read under the guard that the set is an NS set.\<close>

fun targets_of :: "rdataset \<Rightarrow> string list" where
  "targets_of (NS_rdatas ts) = ts"
| "targets_of _ = []"

text \<open>The exceptions of the library and of attribute access that the source can meet.\<close>

datatype exn = Timeout | BadResponse | OSError | EmptyLabel | NoAnswer | NoNameservers
  | NXDOMAIN_raised | AttributeError | OtherException string

text \<open>
  \<^verbatim>\<open>[rr.address for rr in rrset]\<close>, read under the guard that the set is an A set: the
  first record without the attribute raises.
\<close>

fun addresses_of :: "rdataset \<Rightarrow> exn + string list" where
  "addresses_of (A_rdatas as) = Inr as"
| "addresses_of (A_generic_rdatas ts) = (if ts = [] then Inr [] else Inl AttributeError)"
| "addresses_of _ = Inr []"

text \<open>\<^verbatim>\<open>[str(rr) for rr in rrset]\<close>: the text of every record, whatever the type.\<close>

fun texts_of :: "rdataset \<Rightarrow> string list" where
  "texts_of (A_rdatas as) = as"
| "texts_of (A_generic_rdatas ts) = ts"
| "texts_of (NS_rdatas ts) = ts"
| "texts_of (CNAME_rdatas ts) = ts"
| "texts_of (Other_rdatas _ ts) = ts"

record response =
  rcode :: rcode
  answer :: "rrset list"
  authority :: "rrset list"
  additional :: "rrset list"

record query =
  qname :: string
  qtype :: rdatatype

text \<open>\<^verbatim>\<open>s.rstrip('.')\<close> removes every trailing dot.\<close>

definition rstrip_dot :: "string \<Rightarrow> string" where
  "rstrip_dot s = rev (dropWhile (\<lambda>c. c = CHR ''.'') (rev s))"

section \<open>Configuration\<close>

definition RECORD_TYPE :: rdatatype where
  "RECORD_TYPE = rdatatype_A"

definition ROOT_SERVERS :: "(string \<times> string) list" where
  "ROOT_SERVERS =
    [(''198.41.0.4'', ''Root (a.root-servers.net)''),
     (''199.9.14.201'', ''Root (b.root-servers.net)''),
     (''192.33.4.12'', ''Root (c.root-servers.net)''),
     (''199.7.91.13'', ''Root (d.root-servers.net)''),
     (''192.203.230.10'', ''Root (e.root-servers.net)'')]"

definition TIMEOUT :: nat where
  "TIMEOUT = 3"

section \<open>The world outside: library calls, their history, the printed lines\<close>

text \<open>
  The two wrappers \<^verbatim>\<open>send_dns_query\<close> and \<^verbatim>\<open>resolve_ns_name\<close> are the only places where
  the resolver talks to the outside. The history records each invocation of a wrapper, in
  order. The library behind them is a parameter: what \<^verbatim>\<open>dns.query.udp\<close> and
  \<^verbatim>\<open>dns.resolver.resolve\<close> give may depend on everything asked before, and each of them, as
  \<^verbatim>\<open>dns.message.make_query\<close>, either returns or raises.
\<close>

datatype call = SendQuery string string | ResolveNS string

record env =
  make_query :: "string \<Rightarrow> rdatatype \<Rightarrow> exn + query"
  udp :: "call list \<Rightarrow> query \<Rightarrow> string \<Rightarrow> nat \<Rightarrow> exn + response"
  resolve :: "call list \<Rightarrow> string \<Rightarrow> string \<Rightarrow> exn + string list"

datatype stage = ROOT | TLD | AUTH

text \<open>One constructor for each \<^verbatim>\<open>print\<close> of the iterative path, with the values it formats.\<close>

datatype msg =
    FallbackResolved string "string list"
  | FallbackUnable string exn
  | ExtractedNS string
  | FoundA string "string list"
  | ResolvedGlue string "string list"
  | ResolvedFallback string "string list"
  | UnableNS string
  | LookupStart string
  | Querying stage string
  | NoResponse stage string
  | NXDomainMsg string string
  | RcodeError string rcode
  | SuccessMsg string string
  | NoFurtherNS
  | ResolutionFailed

record world =
  hist :: "call list"
  out :: "msg list"

definition print :: "msg \<Rightarrow> world \<Rightarrow> world" where
  "print m w = w\<lparr>out := out w @ [m]\<rparr>"

definition called :: "call \<Rightarrow> world \<Rightarrow> world" where
  "called c w = w\<lparr>hist := hist w @ [c]\<rparr>"

section \<open>The two wrappers\<close>

text \<open>
  \<^verbatim>\<open>send_dns_query\<close>: build the query, send it, and return the reply; any exception of
  either step gives \<^verbatim>\<open>None\<close>.
\<close>

definition send_dns_query :: "env \<Rightarrow> string \<Rightarrow> string \<Rightarrow> world \<Rightarrow> response option \<times> world" where
  "send_dns_query e server domain w =
    ((case make_query e domain RECORD_TYPE of
        Inl _ \<Rightarrow> None
      | Inr q \<Rightarrow> (case udp e (hist w) q server TIMEOUT of
                    Inl _ \<Rightarrow> None
                  | Inr r \<Rightarrow> Some r)),
     called (SendQuery server domain) w)"

text \<open>
  \<^verbatim>\<open>resolve_ns_name\<close>: the system resolver's addresses for the hostname, or the empty list
  when it raises; one line printed either way.
\<close>

definition resolve_ns_name :: "env \<Rightarrow> string \<Rightarrow> world \<Rightarrow> string list \<times> world" where
  "resolve_ns_name e ns_name w =
    (case resolve e (hist w) ns_name ''A'' of
       Inr ips \<Rightarrow> (ips, print (FallbackResolved ns_name ips) (called (ResolveNS ns_name) w))
     | Inl ex \<Rightarrow> ([], print (FallbackUnable ns_name ex) (called (ResolveNS ns_name) w)))"

section \<open>Next nameservers of a delegation\<close>

text \<open>First loop: the targets of every NS set of the authority section, dots stripped.\<close>

definition ns_step :: "string \<Rightarrow> string list \<times> world \<Rightarrow> string list \<times> world" where
  "ns_step tgt acc =
    (case acc of (ns_names, w) \<Rightarrow>
       (let ns_name = rstrip_dot tgt
        in (ns_names @ [ns_name], print (ExtractedNS ns_name) w)))"

definition authority_step :: "rrset \<Rightarrow> string list \<times> world \<Rightarrow> string list \<times> world" where
  "authority_step rs acc =
    (if rdtype rs = rdatatype_NS then fold ns_step (targets_of (rdatas rs)) acc else acc)"

text \<open>
  Second loop: the dictionary \<^verbatim>\<open>additional_a\<close>, assigned once for every A set. Reading
  the addresses is not inside any \<^verbatim>\<open>try\<close>: an exception there ends the loop and leaves
  the function, with what was printed so far.
\<close>

definition additional_step ::
  "rrset \<Rightarrow> (string \<rightharpoonup> string list) \<times> world
     \<Rightarrow> exn \<times> world + (string \<rightharpoonup> string list) \<times> world" where
  "additional_step rs acc =
    (case acc of (additional_a, w) \<Rightarrow>
       (if rdtype rs = rdatatype_A then
          (let nm = rstrip_dot (name rs)
           in (case addresses_of (rdatas rs) of
                 Inl ex \<Rightarrow> Inl (ex, w)
               | Inr a_records \<Rightarrow>
                   Inr (additional_a(nm \<mapsto> a_records), print (FoundA nm a_records) w)))
        else Inr (additional_a, w)))"

fun additional_loop ::
  "rrset list \<Rightarrow> (string \<rightharpoonup> string list) \<times> world
     \<Rightarrow> exn \<times> world + (string \<rightharpoonup> string list) \<times> world" where
  "additional_loop [] acc = Inr acc"
| "additional_loop (rs # rrsets) acc =
     (case additional_step rs acc of
        Inl raised \<Rightarrow> Inl raised
      | Inr acc' \<Rightarrow> additional_loop rrsets acc')"

text \<open>Third loop: glue when the dictionary has the hostname, the fallback otherwise.\<close>

definition resolve_step ::
  "env \<Rightarrow> (string \<rightharpoonup> string list) \<Rightarrow> string \<Rightarrow> string list \<times> world \<Rightarrow> string list \<times> world" where
  "resolve_step e additional_a ns_name acc =
    (case acc of (ns_ips, w) \<Rightarrow>
       (let normalized_ns = rstrip_dot ns_name
        in (case additional_a normalized_ns of
              Some ips \<Rightarrow> (ns_ips @ ips, print (ResolvedGlue ns_name ips) w)
            | None \<Rightarrow>
                (case resolve_ns_name e ns_name w of (fallback_ips, w1) \<Rightarrow>
                   (if fallback_ips \<noteq> [] then
                      (ns_ips @ fallback_ips, print (ResolvedFallback ns_name fallback_ips) w1)
                    else (ns_ips, print (UnableNS ns_name) w1))))))"

definition extract_next_nameservers ::
  "env \<Rightarrow> response \<Rightarrow> world \<Rightarrow> exn \<times> world + string list \<times> world" where
  "extract_next_nameservers e r w =
    (case fold authority_step (authority r) ([], w) of (ns_names, w1) \<Rightarrow>
       (case additional_loop (additional r) (Map.empty, w1) of
          Inl raised \<Rightarrow> Inl raised
        | Inr (additional_a, w2) \<Rightarrow>
            Inr (fold (resolve_step e additional_a) ns_names ([], w2))))"

section \<open>The iterative walk\<close>

text \<open>
  The function returns nothing in the source; which \<^verbatim>\<open>return\<close> ended the run is the tag
  here, and the records found are the \<^verbatim>\<open>[SUCCESS]\<close> lines that were printed. The call
  of \<^verbatim>\<open>extract_next_nameservers\<close> is not inside any \<^verbatim>\<open>try\<close> either: an exception it
  raises leaves \<^verbatim>\<open>iterative_dns_lookup\<close>, which is the fourth way a run ends.
\<close>

datatype outcome = Success | NonExistent | Failure | Raised exn

record lstate =
  next_ns_list :: "string list"
  stage :: stage
  world :: world

definition next_stage :: "stage \<Rightarrow> stage" where
  "next_stage st = (if st = ROOT then TLD else if st = TLD then AUTH else st)"

definition print_answer :: "string \<Rightarrow> rrset list \<Rightarrow> world \<Rightarrow> world" where
  "print_answer domain rrsets w =
    fold (\<lambda>rs. fold (\<lambda>rr. print (SuccessMsg domain rr)) (texts_of (rdatas rs))) rrsets w"

text \<open>
  One test of the \<^verbatim>\<open>while\<close> condition and, when it holds, one pass through the body:
  \<open>Inl\<close> is the state at the next test, \<open>Inr\<close> the end of the call.
\<close>

definition loop_iter :: "env \<Rightarrow> string \<Rightarrow> lstate \<Rightarrow> lstate + outcome \<times> world" where
  "loop_iter e domain s =
    (case next_ns_list s of
       [] \<Rightarrow> Inr (Failure, print ResolutionFailed (world s))
     | ns_ip # rest \<Rightarrow>
        (case send_dns_query e ns_ip domain (print (Querying (stage s) ns_ip) (world s)) of
           (None, w1) \<Rightarrow>
              Inl (s\<lparr>next_ns_list := rest, world := print (NoResponse (stage s) ns_ip) w1\<rparr>)
         | (Some r, w1) \<Rightarrow>
              (if rcode r \<noteq> NOERROR then
                 (if rcode r = NXDOMAIN then
                    Inr (NonExistent, print (NXDomainMsg domain ns_ip) w1)
                  else
                    Inl (s\<lparr>next_ns_list := rest,
                           world := print (RcodeError ns_ip (rcode r)) w1\<rparr>))
               else if answer r \<noteq> [] then
                 Inr (Success, print_answer domain (answer r) w1)
               else
                 (case extract_next_nameservers e r w1 of
                    Inl (ex, w2) \<Rightarrow> Inr (Raised ex, w2)
                  | Inr (nxt, w2) \<Rightarrow>
                      (if nxt = [] then Inr (Failure, print NoFurtherNS w2)
                       else Inl \<lparr>next_ns_list = nxt, stage = next_stage (stage s),
                                 world = w2\<rparr>)))))"

partial_function (option) loop :: "env \<Rightarrow> string \<Rightarrow> lstate \<Rightarrow> (outcome \<times> world) option" where
  "loop e domain s =
    (case loop_iter e domain s of
       Inl s' \<Rightarrow> loop e domain s'
     | Inr res \<Rightarrow> Some res)"

definition init_state :: "string \<Rightarrow> lstate" where
  "init_state domain =
    \<lparr>next_ns_list = map fst ROOT_SERVERS, stage = ROOT,
     world = print (LookupStart domain) \<lparr>hist = [], out = []\<rparr>\<rparr>"

definition iterative_dns_lookup :: "env \<Rightarrow> string \<Rightarrow> (outcome \<times> world) option" where
  "iterative_dns_lookup e domain = loop e domain (init_state domain)"

text \<open>The state at the \<open>n\<close>-th test of the loop condition, when the run gets that far.\<close>

fun iterations :: "nat \<Rightarrow> env \<Rightarrow> string \<Rightarrow> lstate \<Rightarrow> lstate option" where
  "iterations 0 e domain s = Some s"
| "iterations (Suc n) e domain s =
    (case loop_iter e domain s of
       Inl s' \<Rightarrow> iterations n e domain s'
     | Inr _ \<Rightarrow> None)"

section \<open>Collaborators for worked runs\<close>

text \<open>A query builder that accepts every name.\<close>

definition mk_query :: "string \<Rightarrow> rdatatype \<Rightarrow> exn + query" where
  "mk_query d t = Inr \<lparr>qname = d, qtype = t\<rparr>"

text \<open>The first datagram is lost; every later reply says the name does not exist, and
  carries an answer section all the same.\<close>

definition env_nx1 :: env where
  "env_nx1 = \<lparr>make_query = mk_query,
     udp = (\<lambda>h q server t. if h = [] then Inl Timeout
              else Inr \<lparr>rcode = NXDOMAIN, answer = [RRset ''x.'' (A_rdatas [''9.9.9.9''])],
                        authority = [], additional = []\<rparr>),
     resolve = (\<lambda>h n t. Inl NoNameservers)\<rparr>"

text \<open>
  Every server answers with record sets of five kinds: an alias, two addresses, a
  nameserver, a mail exchanger (type 15), and an address record of class 5.
\<close>

definition mixed_answer :: response where
  "mixed_answer = \<lparr>rcode = NOERROR,
     answer = [RRset ''www.example.com.'' (CNAME_rdatas [''example.com.'']),
               RRset ''example.com.'' (A_rdatas [''5.6.7.8'', ''5.6.7.9'']),
               RRset ''example.com.'' (NS_rdatas [''ns1.example.com.'']),
               RRset ''example.com.'' (Other_rdatas 15 [''10 mail.example.com.'']),
               RRset ''example.com.'' (A_generic_rdatas [''# 4 c005061e''])],
     authority = [], additional = []\<rparr>"

definition env_cname :: env where
  "env_cname = \<lparr>make_query = mk_query,
     udp = (\<lambda>h q server t. Inr mixed_answer),
     resolve = (\<lambda>h n t. Inl NoNameservers)\<rparr>"

section \<open>The delegation step, named for the claims\<close>

text \<open>
  The hostnames the first loop collects: the targets of the NS sets of the authority
  section, in the order met, trailing dots stripped.
\<close>

definition ns_hostnames :: "rrset list \<Rightarrow> string list" where
  "ns_hostnames rrsets =
     concat (map (\<lambda>rs. map rstrip_dot (targets_of (rdatas rs)))
                 (filter (\<lambda>rs. rdtype rs = rdatatype_NS) rrsets))"

text \<open>The dictionary the second loop leaves behind, when the loop runs to its end.\<close>

definition glue_map :: "rrset list \<Rightarrow> (string \<rightharpoonup> string list) option" where
  "glue_map rrsets =
     (case additional_loop rrsets (Map.empty, \<lparr>hist = [], out = []\<rparr>) of
        Inl raised \<Rightarrow> None
      | Inr (additional_a, w) \<Rightarrow> Some additional_a)"

text \<open>
  The next-hop list in the words of the specification: for each hostname in order, its
  glue addresses when the glue map has the hostname, otherwise whatever the fallback
  returns at the history of calls made so far.
\<close>

fun spec_next_hops :: "env \<Rightarrow> (string \<rightharpoonup> string list) \<Rightarrow> call list \<Rightarrow> string list \<Rightarrow> string list" where
  "spec_next_hops e glue h [] = []"
| "spec_next_hops e glue h (n # ns) =
     (case glue n of
        Some ips \<Rightarrow> ips @ spec_next_hops e glue h ns
      | None \<Rightarrow> fst (resolve_ns_name e n \<lparr>hist = h, out = []\<rparr>)
                  @ spec_next_hops e glue (h @ [ResolveNS n]) ns)"

text \<open>The addresses a record set carries: those of its address records, if it has any.\<close>

fun carried_addresses :: "rrset \<Rightarrow> string list" where
  "carried_addresses (RRset nm (A_rdatas as)) = as"
| "carried_addresses (RRset nm _) = []"

text \<open>
  The glue map in the words of the specification: for a hostname, all addresses of all
  A sets of the additional section owned by it.
\<close>

definition spec_glue :: "rrset list \<Rightarrow> string \<Rightarrow> string list option" where
  "spec_glue rrsets h =
     (let sets = filter (\<lambda>rs. rdtype rs = rdatatype_A \<and> rstrip_dot (name rs) = h) rrsets
      in if sets = [] then None else Some (concat (map carried_addresses sets)))"

text \<open>
  Every record of every A set of a section has an address: no set of the section makes
  the second loop raise.
\<close>

fun has_addresses :: "rdataset \<Rightarrow> bool" where
  "has_addresses (A_generic_rdatas ts) = (ts = [])"
| "has_addresses _ = True"

definition addressed :: "rrset list \<Rightarrow> bool" where
  "addressed rrsets = list_all (\<lambda>rs. has_addresses (rdatas rs)) rrsets"

section \<open>Replies and collaborators for worked delegation steps\<close>

text \<open>No datagram arrives; the system resolver knows one hostname only.\<close>

definition env_fallback :: env where
  "env_fallback = \<lparr>make_query = mk_query,
     udp = (\<lambda>h q server t. Inl Timeout),
     resolve = (\<lambda>h n t. if n = ''ns3.example.net'' then Inr [''7.7.7.7'', ''7.7.7.8'']
                          else Inl NXDOMAIN_raised)\<rparr>"

definition referral_full_glue :: response where
  "referral_full_glue = \<lparr>rcode = NOERROR, answer = [],
     authority = [RRset ''com.'' (NS_rdatas [''a.gtld-servers.net.'', ''b.gtld-servers.net.''])],
     additional = [RRset ''a.gtld-servers.net.'' (A_rdatas [''192.5.6.30'']),
                   RRset ''a.gtld-servers.net.'' (Other_rdatas 28 [''2001:503:a83e::2:30'']),
                   RRset ''b.gtld-servers.net.'' (A_rdatas [''192.33.14.30''])]\<rparr>"

definition referral_partial_glue :: response where
  "referral_partial_glue = \<lparr>rcode = NOERROR, answer = [],
     authority = [RRset ''example.com.'' (NS_rdatas [''ns1.example.com.'', ''ns2.example.org.'']),
                  RRset ''example.com.'' (Other_rdatas 6 [''soa'']),
                  RRset ''example.com.'' (NS_rdatas [''ns3.example.net.''])],
     additional = [RRset ''ns1.example.com.'' (A_rdatas [''1.1.1.1'', ''1.1.1.2''])]\<rparr>"

definition twice_glued :: "rrset list" where
  "twice_glued = [RRset ''ns1.example.com.'' (A_rdatas [''1.1.1.1'']),
                  RRset ''ns1.example.com.'' (A_rdatas [''2.2.2.2''])]"

section \<open>Replies that only cost a candidate\<close>

text \<open>
  A reply the loop answers by dropping the head of the queue: no reply at all, or a
  response code that is neither NOERROR nor NXDOMAIN.
\<close>

definition absorbed :: "response option \<Rightarrow> bool" where
  "absorbed reply =
     (case reply of None \<Rightarrow> True | Some r \<Rightarrow> rcode r \<noteq> NOERROR \<and> rcode r \<noteq> NXDOMAIN)"

text \<open>
  Every candidate of a queue is answered that way, each at the history of calls at which
  the loop asks it.
\<close>

fun all_absorbed :: "env \<Rightarrow> string \<Rightarrow> call list \<Rightarrow> string list \<Rightarrow> bool" where
  "all_absorbed e domain h [] = True"
| "all_absorbed e domain h (x # xs) =
     (absorbed (fst (send_dns_query e x domain \<lparr>hist = h, out = []\<rparr>))
      \<and> all_absorbed e domain (h @ [SendQuery x domain]) xs)"

text \<open>Two datagrams are lost, two servers fail, the others refuse.\<close>

definition env_down :: env where
  "env_down = \<lparr>make_query = mk_query,
     udp = (\<lambda>h q server t. if length h < 2 then Inl Timeout
              else if length h < 4 then Inr \<lparr>rcode = SERVFAIL, answer = [], authority = [], additional = []\<rparr>
              else Inr \<lparr>rcode = REFUSED, answer = [RRset ''x.'' (A_rdatas [''9.9.9.9''])], authority = [], additional = []\<rparr>),
     resolve = (\<lambda>h n t. Inl NoNameservers)\<rparr>"

section \<open>Counting queries, ordering stages\<close>

text \<open>The calls of the history that are transport queries.\<close>

fun is_query :: "call \<Rightarrow> bool" where
  "is_query (SendQuery _ _) = True"
| "is_query (ResolveNS _) = False"

text \<open>The order of the stage labels along the hierarchy.\<close>

fun stage_rank :: "stage \<Rightarrow> nat" where
  "stage_rank ROOT = 0"
| "stage_rank TLD = 1"
| "stage_rank AUTH = 2"

text \<open>A reply with the code NOERROR and nothing in any section.\<close>

definition nodata :: response where
  "nodata = \<lparr>rcode = NOERROR, answer = [], authority = [], additional = []\<rparr>"

text \<open>The first reply is a referral with glue for every server; every later reply is empty.\<close>

definition env_referral_once :: env where
  "env_referral_once = \<lparr>make_query = mk_query,
     udp = (\<lambda>h q server t. if h = [] then Inr referral_full_glue else Inr nodata),
     resolve = (\<lambda>h n t. Inl NoNameservers)\<rparr>"

text \<open>Every server refers to the same two servers, with glue, for ever.\<close>

definition env_cycle :: env where
  "env_cycle = \<lparr>make_query = mk_query,
     udp = (\<lambda>h q server t. Inr referral_full_glue),
     resolve = (\<lambda>h n t. Inl NoNameservers)\<rparr>"

section \<open>Referrals, and the name a query carries\<close>

text \<open>
  A reply the loop answers with the delegation step: the code is NOERROR and the answer
  section is empty.
\<close>

definition delegates :: "response option \<Rightarrow> bool" where
  "delegates reply =
     (case reply of None \<Rightarrow> False | Some r \<Rightarrow> rcode r = NOERROR \<and> answer r = [])"

text \<open>A call of the history that, if it is a transport query, asks for the given name.\<close>

fun carries :: "string \<Rightarrow> call \<Rightarrow> bool" where
  "carries domain (SendQuery server d) = (d = domain)"
| "carries domain (ResolveNS n) = True"

text \<open>
  A walk of two steps: every server but one refers to the server \<^verbatim>\<open>X\<close> with the glue
  address 1.2.3.4, and that server answers with the address 5.6.7.8.
\<close>

definition answer_5678 :: response where
  "answer_5678 = \<lparr>rcode = NOERROR, answer = [RRset ''example.com.'' (A_rdatas [''5.6.7.8''])],
     authority = [], additional = []\<rparr>"

definition referral_x :: response where
  "referral_x = \<lparr>rcode = NOERROR, answer = [],
     authority = [RRset ''com.'' (NS_rdatas [''X.''])],
     additional = [RRset ''X.'' (A_rdatas [''1.2.3.4''])]\<rparr>"

definition env_scenario_a :: env where
  "env_scenario_a = \<lparr>make_query = mk_query,
     udp = (\<lambda>h q server t. if server = ''1.2.3.4'' then Inr answer_5678 else Inr referral_x),
     resolve = (\<lambda>h n t. Inl NoNameservers)\<rparr>"

text \<open>
  A referral whose glue is an A set of class 5: the library decodes its record
  generically. Every server sends it.
\<close>

definition referral_class5 :: response where
  "referral_class5 = \<lparr>rcode = NOERROR, answer = [],
     authority = [RRset ''com.'' (NS_rdatas [''a.gtld-servers.net.''])],
     additional = [RRset ''a.gtld-servers.net.'' (A_generic_rdatas [''# 4 c005061e''])]\<rparr>"

definition env_class5 :: env where
  "env_class5 = \<lparr>make_query = mk_query,
     udp = (\<lambda>h q server t. Inr referral_class5),
     resolve = (\<lambda>h n t. Inl NoNameservers)\<rparr>"

section \<open>Basic facts about the world and one pass of the loop\<close>

lemma hist_print [simp]: "hist (print m w) = hist w"
  by (simp add: print_def)

lemma out_print [simp]: "out (print m w) = out w @ [m]"
  by (simp add: print_def)

lemma hist_called [simp]: "hist (called c w) = hist w @ [c]"
  by (simp add: called_def)

lemma out_called [simp]: "out (called c w) = out w"
  by (simp add: called_def)

lemma snd_send_dns_query [simp]:
  "snd (send_dns_query e server domain w) = called (SendQuery server domain) w"
  by (simp add: send_dns_query_def)

lemma fst_send_dns_query_hist:
  "hist w = hist w' \<Longrightarrow>
   fst (send_dns_query e server domain w) = fst (send_dns_query e server domain w')"
  by (simp add: send_dns_query_def split: sum.splits)

lemma fst_send_dns_query_print [simp]:
  "fst (send_dns_query e server domain (print m w)) = fst (send_dns_query e server domain w)"
  by (rule fst_send_dns_query_hist) simp

lemma send_dns_query_split:
  "fst (send_dns_query e server domain w) = x \<Longrightarrow>
   send_dns_query e server domain w = (x, called (SendQuery server domain) w)"
  by (simp add: send_dns_query_def)

text \<open>The body of the loop at a non-empty queue, with the reply named.\<close>

lemma loop_iter_Cons:
  assumes "next_ns_list s = ns_ip # rest"
    and "fst (send_dns_query e ns_ip domain (world s)) = reply"
    and "w1 = called (SendQuery ns_ip domain) (print (Querying (stage s) ns_ip) (world s))"
  shows "loop_iter e domain s =
    (case reply of
       None \<Rightarrow> Inl (s\<lparr>next_ns_list := rest, world := print (NoResponse (stage s) ns_ip) w1\<rparr>)
     | Some r \<Rightarrow>
        (if rcode r \<noteq> NOERROR then
           (if rcode r = NXDOMAIN then Inr (NonExistent, print (NXDomainMsg domain ns_ip) w1)
            else Inl (s\<lparr>next_ns_list := rest, world := print (RcodeError ns_ip (rcode r)) w1\<rparr>))
         else if answer r \<noteq> [] then Inr (Success, print_answer domain (answer r) w1)
         else (case extract_next_nameservers e r w1 of
                 Inl (ex, w2) \<Rightarrow> Inr (Raised ex, w2)
               | Inr (nxt, w2) \<Rightarrow>
                   (if nxt = [] then Inr (Failure, print NoFurtherNS w2)
                    else Inl \<lparr>next_ns_list = nxt, stage = next_stage (stage s), world = w2\<rparr>))))"
proof -
  have "send_dns_query e ns_ip domain (print (Querying (stage s) ns_ip) (world s)) = (reply, w1)"
    using assms(2,3) by (intro send_dns_query_split [THEN trans]) simp_all
  then show ?thesis
    using assms(1) by (simp add: loop_iter_def split: option.splits)
qed

lemma loop_iter_Nil:
  "next_ns_list s = [] \<Longrightarrow> loop_iter e domain s = Inr (Failure, print ResolutionFailed (world s))"
  by (simp add: loop_iter_def)

text \<open>Running some passes first and the loop from there is the loop from the start.\<close>

lemma loop_iterations:
  "iterations n e domain s0 = Some s \<Longrightarrow> loop e domain s0 = loop e domain s"
proof (induction n arbitrary: s0)
  case 0
  then show ?case by simp
next
  case (Suc n)
  then show ?case
    by (subst loop.simps) (auto split: sum.splits)
qed

lemma loop_Inr: "loop_iter e domain s = Inr res \<Longrightarrow> loop e domain s = Some res"
  by (subst loop.simps) simp

lemma loop_Inl: "loop_iter e domain s = Inl s' \<Longrightarrow> loop e domain s = loop e domain s'"
  by (subst loop.simps) simp

lemma fold_print_inner:
  "fold (\<lambda>rr. print (f rr)) xs w = w\<lparr>out := out w @ map f xs\<rparr>"
  by (induction xs arbitrary: w) (simp_all add: print_def)

lemma print_answer_eq:
  "print_answer domain rrsets w =
     w\<lparr>out := out w @ map (SuccessMsg domain) (concat (map (\<lambda>rs. texts_of (rdatas rs)) rrsets))\<rparr>"
  unfolding print_answer_def
  by (induction rrsets arbitrary: w) (simp_all add: fold_print_inner)

lemma roots [simp]: "map fst ROOT_SERVERS = [''198.41.0.4'', ''199.9.14.201'', ''192.33.4.12'', ''199.7.91.13'', ''192.203.230.10'']"
  by (simp add: ROOT_SERVERS_def)

section \<open>Claims about the walk\<close>

text \<open>
  C1. Whenever the reply of the server queried in some pass of a run has the response
  code NXDOMAIN, the run returns at once with non-existence: the history of calls at the
  return is the history at that pass plus this one query, whatever candidates remain in
  the queue and whatever the other sections of the reply hold.
\<close>

theorem nxdomain_ends_run:
  assumes "iterations n e domain (init_state domain) = Some s"
    and "next_ns_list s = ns_ip # rest"
    and "fst (send_dns_query e ns_ip domain (world s)) = Some r"
    and "rcode r = NXDOMAIN"
  shows "\<exists>w'. iterative_dns_lookup e domain = Some (NonExistent, w')
           \<and> hist w' = hist (world s) @ [SendQuery ns_ip domain]
           \<and> out w' = out (world s) @ [Querying (stage s) ns_ip, NXDomainMsg domain ns_ip]"
proof -
  let ?w1 = "called (SendQuery ns_ip domain) (print (Querying (stage s) ns_ip) (world s))"
  have "loop_iter e domain s = Inr (NonExistent, print (NXDomainMsg domain ns_ip) ?w1)"
    using assms(3,4) by (simp add: loop_iter_Cons [OF assms(2) refl refl])
  then have "loop e domain s = Some (NonExistent, print (NXDomainMsg domain ns_ip) ?w1)"
    by (rule loop_Inr)
  then have "iterative_dns_lookup e domain = Some (NonExistent, print (NXDomainMsg domain ns_ip) ?w1)"
    using loop_iterations [OF assms(1)] by (simp add: iterative_dns_lookup_def)
  then show ?thesis by simp
qed

theorem nxdomain_ends_run_witness:
  "\<exists>w'. iterative_dns_lookup env_nx1 ''nonexistentdomain.xyz'' = Some (NonExistent, w')
      \<and> hist w' = [SendQuery ''198.41.0.4'' ''nonexistentdomain.xyz'',
                    SendQuery ''199.9.14.201'' ''nonexistentdomain.xyz'']
      \<and> out w' = [LookupStart ''nonexistentdomain.xyz'',
                   Querying ROOT ''198.41.0.4'', NoResponse ROOT ''198.41.0.4'',
                   Querying ROOT ''199.9.14.201'',
                   NXDomainMsg ''nonexistentdomain.xyz'' ''199.9.14.201'']"
proof -
  let ?d = "''nonexistentdomain.xyz''"
  let ?s = "\<lparr>next_ns_list = [''199.9.14.201'', ''192.33.4.12'', ''199.7.91.13'', ''192.203.230.10''],
             stage = ROOT,
             world = \<lparr>hist = [SendQuery ''198.41.0.4'' ?d],
                      out = [LookupStart ?d, Querying ROOT ''198.41.0.4'', NoResponse ROOT ''198.41.0.4'']\<rparr>\<rparr>"
  let ?r = "\<lparr>rcode = NXDOMAIN, answer = [RRset ''x.'' (A_rdatas [''9.9.9.9''])], authority = [], additional = []\<rparr>"
  have a: "iterations (Suc 0) env_nx1 ?d (init_state ?d) = Some ?s"
    by (simp add: init_state_def loop_iter_def send_dns_query_def env_nx1_def mk_query_def
        print_def called_def RECORD_TYPE_def)
  have b: "next_ns_list ?s = ''199.9.14.201'' # [''192.33.4.12'', ''199.7.91.13'', ''192.203.230.10'']"
    by simp
  have c: "fst (send_dns_query env_nx1 ''199.9.14.201'' ?d (world ?s)) = Some ?r"
    by (simp add: send_dns_query_def env_nx1_def mk_query_def RECORD_TYPE_def)
  have d: "rcode ?r = NXDOMAIN" by simp
  from nxdomain_ends_run [OF a b c d] show ?thesis by simp
qed

text \<open>
  C10. Whenever the reply has the code NOERROR and a non-empty answer section, the run
  returns with success and has printed one line for every record of every record set of
  the answer section, in order, whatever the type of the set (address, generic address,
  nameserver, alias or any other): an alias is printed as the result, neither followed
  nor left out.
\<close>

theorem answer_reported:
  assumes "iterations n e domain (init_state domain) = Some s"
    and "next_ns_list s = ns_ip # rest"
    and "fst (send_dns_query e ns_ip domain (world s)) = Some r"
    and "rcode r = NOERROR"
    and "answer r \<noteq> []"
  shows "\<exists>w'. iterative_dns_lookup e domain = Some (Success, w')
           \<and> out w' = out (world s) @ [Querying (stage s) ns_ip]
                 @ map (SuccessMsg domain)
                     (concat (map (\<lambda>rs. case rdatas rs of
                                           A_rdatas records \<Rightarrow> records
                                         | A_generic_rdatas records \<Rightarrow> records
                                         | NS_rdatas records \<Rightarrow> records
                                         | CNAME_rdatas records \<Rightarrow> records
                                         | Other_rdatas t records \<Rightarrow> records)
                                  (answer r)))
           \<and> hist w' = hist (world s) @ [SendQuery ns_ip domain]"
proof -
  let ?w1 = "called (SendQuery ns_ip domain) (print (Querying (stage s) ns_ip) (world s))"
  have "loop_iter e domain s = Inr (Success, print_answer domain (answer r) ?w1)"
    using assms(3,4,5) by (simp add: loop_iter_Cons [OF assms(2) refl refl])
  then have "loop e domain s = Some (Success, print_answer domain (answer r) ?w1)"
    by (rule loop_Inr)
  then have "iterative_dns_lookup e domain = Some (Success, print_answer domain (answer r) ?w1)"
    using loop_iterations [OF assms(1)] by (simp add: iterative_dns_lookup_def)
  moreover have "(\<lambda>rs. texts_of (rdatas rs)) =
      (\<lambda>rs. case rdatas rs of
               A_rdatas records \<Rightarrow> records
             | A_generic_rdatas records \<Rightarrow> records
             | NS_rdatas records \<Rightarrow> records
             | CNAME_rdatas records \<Rightarrow> records
             | Other_rdatas t records \<Rightarrow> records)"
    by (rule ext) (simp split: rdataset.splits)
  ultimately show ?thesis by (simp add: print_answer_eq)
qed

theorem answer_reported_witness:
  "\<exists>w'. iterative_dns_lookup env_cname ''www.example.com'' = Some (Success, w')
      \<and> out w' = [LookupStart ''www.example.com'', Querying ROOT ''198.41.0.4'',
                   SuccessMsg ''www.example.com'' ''example.com.'',
                   SuccessMsg ''www.example.com'' ''5.6.7.8'',
                   SuccessMsg ''www.example.com'' ''5.6.7.9'',
                   SuccessMsg ''www.example.com'' ''ns1.example.com.'',
                   SuccessMsg ''www.example.com'' ''10 mail.example.com.'',
                   SuccessMsg ''www.example.com'' ''# 4 c005061e'']
      \<and> hist w' = [SendQuery ''198.41.0.4'' ''www.example.com'']"
proof -
  let ?d = "''www.example.com''"
  have a: "iterations 0 env_cname ?d (init_state ?d) = Some (init_state ?d)" by simp
  have b: "next_ns_list (init_state ?d) = ''198.41.0.4'' # [''199.9.14.201'', ''192.33.4.12'', ''199.7.91.13'', ''192.203.230.10'']"
    by (simp add: init_state_def)
  have c: "fst (send_dns_query env_cname ''198.41.0.4'' ?d (world (init_state ?d))) = Some mixed_answer"
    by (simp add: send_dns_query_def env_cname_def mk_query_def RECORD_TYPE_def)
  have d: "rcode mixed_answer = NOERROR" by (simp add: mixed_answer_def)
  have e: "answer mixed_answer \<noteq> []" by (simp add: mixed_answer_def)
  from answer_reported [OF a b c d e] show ?thesis
    by (simp add: init_state_def mixed_answer_def)
qed

section \<open>Facts about the three loops of the delegation step\<close>

lemma rstrip_dot_idem [simp]: "rstrip_dot (rstrip_dot s) = rstrip_dot s"
  by (simp add: rstrip_dot_def)

lemma fold_ns_step:
  "fold ns_step ts (acc, w) =
     (acc @ map rstrip_dot ts, w\<lparr>out := out w @ map (\<lambda>t. ExtractedNS (rstrip_dot t)) ts\<rparr>)"
  by (induction ts arbitrary: acc w) (simp_all add: ns_step_def print_def Let_def)

lemma fold_authority_step:
  "fold authority_step rrsets (acc, w) =
     (acc @ ns_hostnames rrsets, w\<lparr>out := out w @ map ExtractedNS (ns_hostnames rrsets)\<rparr>)"
  by (induction rrsets arbitrary: acc w)
     (simp_all add: authority_step_def ns_hostnames_def fold_ns_step comp_def)

lemma ns_hostnames_stripped: "n \<in> set (ns_hostnames rrsets) \<Longrightarrow> rstrip_dot n = n"
  by (auto simp: ns_hostnames_def)

lemma fst_resolve_ns_name_hist:
  "hist w = hist w' \<Longrightarrow> fst (resolve_ns_name e n w) = fst (resolve_ns_name e n w')"
  by (simp add: resolve_ns_name_def split: sum.splits)

lemma hist_resolve_ns_name [simp]:
  "hist (snd (resolve_ns_name e n w)) = hist w @ [ResolveNS n]"
  by (simp add: resolve_ns_name_def split: sum.splits)

lemma addresses_of_carried:
  "rdtype rs = rdatatype_A \<Longrightarrow> addresses_of (rdatas rs) = Inr as \<Longrightarrow> as = carried_addresses rs"
  by (cases rs; cases "rdatas rs") (auto simp: rdtype_def split: if_splits)

lemma addresses_of_raises:
  "addresses_of d = Inl ex \<Longrightarrow> ex = AttributeError \<and> \<not> has_addresses d"
  by (cases d) (auto split: if_splits)

lemma addresses_of_returns:
  "addresses_of d = Inr as \<Longrightarrow> has_addresses d"
  by (cases d) (auto split: if_splits)

text \<open>One set of the second loop: what it does to the dictionary and to the world.\<close>

lemma additional_step_cases:
  "additional_step rs (m, w) =
     (if rdtype rs = rdatatype_A then
        (case addresses_of (rdatas rs) of
           Inl ex \<Rightarrow> Inl (ex, w)
         | Inr as \<Rightarrow> Inr (m(rstrip_dot (name rs) \<mapsto> as),
                         print (FoundA (rstrip_dot (name rs)) as) w))
      else Inr (m, w))"
  by (simp add: additional_step_def Let_def)

lemma has_addresses_not_A:
  "rdtype rs \<noteq> rdatatype_A \<Longrightarrow> has_addresses (rdatas rs)"
  by (cases "rdatas rs") (simp_all add: rdtype_def)

lemma additional_loop_raises:
  "additional_loop rrsets (m, w) = Inl (ex, w') \<Longrightarrow>
     ex = AttributeError \<and> hist w' = hist w \<and> \<not> addressed rrsets"
proof (induction rrsets arbitrary: m w)
  case Nil
  then show ?case by simp
next
  case (Cons rs rrsets)
  show ?case
  proof (cases "additional_step rs (m, w)")
    case (Inl raised)
    then have "raised = (ex, w')" using Cons.prems by simp
    then show ?thesis
      using Inl addresses_of_raises [of "rdatas rs"]
      by (auto simp: additional_step_cases addressed_def split: if_splits sum.splits)
  next
    case (Inr acc)
    obtain m1 w1 where acc: "acc = (m1, w1)" by (cases acc)
    have "hist w1 = hist w"
      using Inr acc by (auto simp: additional_step_cases split: if_splits sum.splits)
    moreover have "additional_loop rrsets (m1, w1) = Inl (ex, w')"
      using Cons.prems Inr acc by simp
    ultimately show ?thesis
      using Cons.IH [of m1 w1] by (simp add: addressed_def)
  qed
qed

lemma additional_loop_returns:
  "additional_loop rrsets (m, w) = Inr (m', w') \<Longrightarrow> hist w' = hist w \<and> addressed rrsets"
proof (induction rrsets arbitrary: m w)
  case Nil
  then show ?case by (simp add: addressed_def)
next
  case (Cons rs rrsets)
  show ?case
  proof (cases "additional_step rs (m, w)")
    case (Inl raised)
    then show ?thesis using Cons.prems by simp
  next
    case (Inr acc)
    obtain m1 w1 where acc: "acc = (m1, w1)" by (cases acc)
    have "hist w1 = hist w \<and> has_addresses (rdatas rs)"
      using Inr acc addresses_of_returns [of "rdatas rs"] has_addresses_not_A [of rs]
      by (auto simp: additional_step_cases split: if_splits sum.splits)
    moreover have "additional_loop rrsets (m1, w1) = Inr (m', w')"
      using Cons.prems Inr acc by simp
    ultimately show ?thesis
      using Cons.IH [of m1 w1] by (simp add: addressed_def)
  qed
qed

text \<open>The dictionary does not depend on the world the loop starts in.\<close>

lemma additional_loop_world:
  "map_sum fst fst (additional_loop rrsets (m, w)) = map_sum fst fst (additional_loop rrsets (m, w'))"
proof (induction rrsets arbitrary: m w w')
  case Nil
  then show ?case by simp
next
  case (Cons rs rrsets)
  show ?case
  proof (cases "rdtype rs = rdatatype_A")
    case False
    then show ?thesis using Cons.IH [of m w w'] by (simp add: additional_step_cases)
  next
    case True
    show ?thesis
    proof (cases "addresses_of (rdatas rs)")
      case (Inl ex)
      then show ?thesis using True by (simp add: additional_step_cases)
    next
      case (Inr as)
      define m1 where "m1 = m(rstrip_dot (name rs) \<mapsto> as)"
      have "additional_step rs (m, w) = Inr (m1, print (FoundA (rstrip_dot (name rs)) as) w)"
        and "additional_step rs (m, w') = Inr (m1, print (FoundA (rstrip_dot (name rs)) as) w')"
        using True Inr by (simp_all add: additional_step_cases m1_def)
      then show ?thesis
        using Cons.IH [of m1 "print (FoundA (rstrip_dot (name rs)) as) w"
                          "print (FoundA (rstrip_dot (name rs)) as) w'"]
        by simp
    qed
  qed
qed

lemma additional_loop_glue_Some:
  assumes "additional_loop rrsets (Map.empty, w) = Inr (m, w')"
  shows "glue_map rrsets = Some m"
proof -
  have "map_sum fst fst (additional_loop rrsets (Map.empty, \<lparr>hist = [], out = []\<rparr>)) = Inr m"
    using additional_loop_world [of rrsets Map.empty "\<lparr>hist = [], out = []\<rparr>" w] assms by simp
  then show ?thesis
    by (cases "additional_loop rrsets (Map.empty, \<lparr>hist = [], out = []\<rparr>)")
       (auto simp: glue_map_def)
qed

lemma additional_loop_glue_None:
  assumes "additional_loop rrsets (Map.empty, w) = Inl raised"
  shows "glue_map rrsets = None"
proof -
  have "map_sum fst fst (additional_loop rrsets (Map.empty, \<lparr>hist = [], out = []\<rparr>)) = Inl (fst raised)"
    using additional_loop_world [of rrsets Map.empty "\<lparr>hist = [], out = []\<rparr>" w] assms by simp
  then show ?thesis
    by (cases "additional_loop rrsets (Map.empty, \<lparr>hist = [], out = []\<rparr>)")
       (auto simp: glue_map_def)
qed

lemma glue_map_addressed: "glue_map rrsets \<noteq> None \<longleftrightarrow> addressed rrsets"
proof (cases "additional_loop rrsets (Map.empty, \<lparr>hist = [], out = []\<rparr>)")
  case (Inl raised)
  then show ?thesis
    using additional_loop_raises [of rrsets Map.empty _ "fst raised" "snd raised"]
    by (simp add: glue_map_def)
next
  case (Inr acc)
  then show ?thesis
    using additional_loop_returns [of rrsets Map.empty _ "fst acc" "snd acc"]
    by (simp add: glue_map_def split: prod.splits)
qed

lemma resolve_step_fst:
  assumes "rstrip_dot n = n"
  shows "fst (resolve_step e glue n (acc, w)) =
      acc @ (case glue n of Some ips \<Rightarrow> ips | None \<Rightarrow> fst (resolve_ns_name e n \<lparr>hist = hist w, out = []\<rparr>))"
proof (cases "glue n")
  case None
  obtain ips w1 where r: "resolve_ns_name e n w = (ips, w1)"
    by (cases "resolve_ns_name e n w")
  have "fst (resolve_ns_name e n w) = fst (resolve_ns_name e n \<lparr>hist = hist w, out = []\<rparr>)"
    by (rule fst_resolve_ns_name_hist) simp
  then have "fst (resolve_ns_name e n \<lparr>hist = hist w, out = []\<rparr>) = ips"
    using r by simp
  then show ?thesis using None assms r
    by (simp add: resolve_step_def)
next
  case (Some ips)
  then show ?thesis using assms by (simp add: resolve_step_def)
qed

lemma resolve_step_hist:
  assumes "rstrip_dot n = n"
  shows "hist (snd (resolve_step e glue n (acc, w))) =
      hist w @ (case glue n of Some ips \<Rightarrow> [] | None \<Rightarrow> [ResolveNS n])"
proof (cases "glue n")
  case None
  obtain ips w1 where r: "resolve_ns_name e n w = (ips, w1)"
    by (cases "resolve_ns_name e n w")
  have "hist (snd (resolve_ns_name e n w)) = hist w @ [ResolveNS n]" by simp
  then have "hist w1 = hist w @ [ResolveNS n]" using r by simp
  then show ?thesis using None assms r
    by (simp add: resolve_step_def)
next
  case (Some ips)
  then show ?thesis using assms by (simp add: resolve_step_def)
qed

lemma fold_resolve_step:
  assumes "\<forall>n \<in> set ns. rstrip_dot n = n"
  shows "fst (fold (resolve_step e glue) ns (acc, w)) = acc @ spec_next_hops e glue (hist w) ns
       \<and> hist (snd (fold (resolve_step e glue) ns (acc, w)))
           = hist w @ map ResolveNS (filter (\<lambda>n. glue n = None) ns)"
  using assms
proof (induction ns arbitrary: acc w)
  case Nil
  then show ?case by simp
next
  case (Cons n ns)
  obtain acc' w' where st: "resolve_step e glue n (acc, w) = (acc', w')"
    by (cases "resolve_step e glue n (acc, w)")
  have n: "rstrip_dot n = n" using Cons.prems by simp
  have a: "acc' = acc @ (case glue n of Some ips \<Rightarrow> ips | None \<Rightarrow> fst (resolve_ns_name e n \<lparr>hist = hist w, out = []\<rparr>))"
    using resolve_step_fst [OF n, of e glue acc w] st by simp
  have h: "hist w' = hist w @ (case glue n of Some ips \<Rightarrow> [] | None \<Rightarrow> [ResolveNS n])"
    using resolve_step_hist [OF n, of e glue acc w] st by simp
  have ih: "fst (fold (resolve_step e glue) ns (acc', w')) = acc' @ spec_next_hops e glue (hist w') ns
       \<and> hist (snd (fold (resolve_step e glue) ns (acc', w')))
           = hist w' @ map ResolveNS (filter (\<lambda>n. glue n = None) ns)"
    using Cons.IH [of acc' w'] Cons.prems by simp
  show ?case
    using ih a h st by (cases "glue n") simp_all
qed

text \<open>The delegation step as a whole, by whether the second loop runs to its end.\<close>

lemma extract_next_nameservers_Some:
  assumes "glue_map (additional r) = Some glue"
  shows "\<exists>w2. extract_next_nameservers e r w
           = Inr (spec_next_hops e glue (hist w) (ns_hostnames (authority r)), w2)
         \<and> hist w2 = hist w @ map ResolveNS
             (filter (\<lambda>n. glue n = None) (ns_hostnames (authority r)))"
proof -
  let ?w1 = "w\<lparr>out := out w @ map ExtractedNS (ns_hostnames (authority r))\<rparr>"
  obtain m w2 where ad: "additional_loop (additional r) (Map.empty, ?w1) = Inr (m, w2)"
  proof (cases "additional_loop (additional r) (Map.empty, ?w1)")
    case (Inl raised)
    then show ?thesis using additional_loop_glue_None [OF Inl] assms by simp
  next
    case (Inr acc)
    then show ?thesis using that [of "fst acc" "snd acc"] by simp
  qed
  have m: "m = glue"
    using additional_loop_glue_Some [OF ad] assms by simp
  have w2: "hist w2 = hist w"
    using additional_loop_returns [OF ad] by simp
  have ex: "extract_next_nameservers e r w
      = Inr (fold (resolve_step e m) (ns_hostnames (authority r)) ([], w2))"
    using ad by (simp add: extract_next_nameservers_def fold_authority_step)
  have "\<forall>n \<in> set (ns_hostnames (authority r)). rstrip_dot n = n"
    by (simp add: ns_hostnames_stripped)
  from fold_resolve_step [OF this, of e m "[]" w2] show ?thesis
    unfolding ex m w2
    by (cases "fold (resolve_step e glue) (ns_hostnames (authority r)) ([], w2)") simp
qed

lemma extract_next_nameservers_None:
  assumes "glue_map (additional r) = None"
  shows "\<exists>w2. extract_next_nameservers e r w = Inl (AttributeError, w2) \<and> hist w2 = hist w"
proof -
  let ?w1 = "w\<lparr>out := out w @ map ExtractedNS (ns_hostnames (authority r))\<rparr>"
  obtain ex w2 where ad: "additional_loop (additional r) (Map.empty, ?w1) = Inl (ex, w2)"
  proof (cases "additional_loop (additional r) (Map.empty, ?w1)")
    case (Inl raised)
    then show ?thesis using that [of "fst raised" "snd raised"] by simp
  next
    case (Inr acc)
    then show ?thesis
      using additional_loop_glue_Some [of "additional r" ?w1 "fst acc" "snd acc"] assms by simp
  qed
  have "ex = AttributeError \<and> hist w2 = hist w"
    using additional_loop_raises [OF ad] by simp
  then show ?thesis
    using ad by (simp add: extract_next_nameservers_def fold_authority_step)
qed

text \<open>Whatever the delegation step does, it only adds fallback calls to the history.\<close>

lemma extract_next_nameservers_hist:
  "\<exists>ns. hist (case extract_next_nameservers e r w of Inl (ex, w2) \<Rightarrow> w2 | Inr (nxt, w2) \<Rightarrow> w2)
        = hist w @ map ResolveNS ns"
proof (cases "glue_map (additional r)")
  case None
  from extract_next_nameservers_None [OF None, of e w] show ?thesis
    by (auto intro: exI [of _ "[]"])
next
  case (Some glue)
  from extract_next_nameservers_Some [OF Some, of e w] show ?thesis
    by auto
qed

text \<open>The entry of a hostname in the dictionary of a loop that ran to its end.\<close>

lemma additional_loop_lookup:
  "additional_loop rrsets (m, w) = Inr (m', w') \<Longrightarrow>
   m' h =
     (case filter (\<lambda>rs. rdtype rs = rdatatype_A \<and> rstrip_dot (name rs) = h) rrsets of
        [] \<Rightarrow> m h
      | x # xs \<Rightarrow> Some (carried_addresses (last (x # xs))))"
proof (induction rrsets arbitrary: m w)
  case Nil
  then show ?case by simp
next
  case (Cons rs rrsets)
  let ?P = "\<lambda>rs. rdtype rs = rdatatype_A \<and> rstrip_dot (name rs) = h"
  show ?case
  proof (cases "rdtype rs = rdatatype_A")
    case False
    then have "additional_loop rrsets (m, w) = Inr (m', w')"
      using Cons.prems by (simp add: additional_step_cases)
    then show ?thesis using Cons.IH [of m w] False by simp
  next
    case True
    obtain as where as: "addresses_of (rdatas rs) = Inr as"
      using Cons.prems True
      by (cases "addresses_of (rdatas rs)") (simp_all add: additional_step_cases)
    have car: "as = carried_addresses rs"
      using addresses_of_carried [OF True as] .
    define m1 where "m1 = m(rstrip_dot (name rs) \<mapsto> as)"
    define w1 where "w1 = print (FoundA (rstrip_dot (name rs)) as) w"
    have "additional_step rs (m, w) = Inr (m1, w1)"
      using True as by (simp add: additional_step_cases m1_def w1_def)
    then have run: "additional_loop rrsets (m1, w1) = Inr (m', w')"
      using Cons.prems by simp
    note ih = Cons.IH [OF run]
    show ?thesis
    proof (cases "rstrip_dot (name rs) = h")
      case same: True
      then have m1: "m1 h = Some (carried_addresses rs)"
        by (simp add: m1_def car)
      have "filter ?P (rs # rrsets) = rs # filter ?P rrsets"
        using True same by simp
      then show ?thesis
        using ih m1 by (cases "filter ?P rrsets") simp_all
    next
      case other: False
      then have m1: "m1 h = m h"
        by (simp add: m1_def)
      show ?thesis
        using ih m1 other by (simp split: list.splits)
    qed
  qed
qed

lemma glue_map_lookup:
  assumes "glue_map rrsets = Some glue"
  shows "glue h =
     (case filter (\<lambda>rs. rdtype rs = rdatatype_A \<and> rstrip_dot (name rs) = h) rrsets of
        [] \<Rightarrow> None
      | x # xs \<Rightarrow> Some (carried_addresses (last (x # xs))))"
proof (cases "additional_loop rrsets (Map.empty, \<lparr>hist = [], out = []\<rparr>)")
  case (Inl raised)
  then show ?thesis using assms by (simp add: glue_map_def)
next
  case (Inr acc)
  then have "additional_loop rrsets (Map.empty, \<lparr>hist = [], out = []\<rparr>) = Inr (glue, snd acc)"
    using assms by (cases acc) (simp add: glue_map_def)
  from additional_loop_lookup [OF this, of h] show ?thesis by simp
qed

section \<open>Claims about the delegation step\<close>

text \<open>
  C6. The next-hop list of a delegation reply is built by visiting the NS hostnames in
  the order of the authority section: a hostname in the glue map contributes its glue
  addresses, any other hostname contributes what the fallback returns, which may be
  nothing, and the visit goes on. The fallback is called once for each hostname missing
  from the glue map and for no other; when every hostname has glue it is never called.
  This is what the step returns whenever the glue map is built; when it is not, because
  an address record of the additional section has no address, no list is built and the
  step raises before any fallback call.
\<close>

theorem next_hops_from_glue_or_fallback:
  "(glue_map (additional r) = Some glue \<longrightarrow>
      (\<exists>w2. extract_next_nameservers e r w
              = Inr (spec_next_hops e glue (hist w) (ns_hostnames (authority r)), w2)
          \<and> hist w2 = hist w @ map ResolveNS
               (filter (\<lambda>n. glue n = None) (ns_hostnames (authority r)))
          \<and> ((\<forall>n \<in> set (ns_hostnames (authority r)). glue n \<noteq> None) \<longrightarrow> hist w2 = hist w)))
   \<and> (glue_map (additional r) = None \<longrightarrow>
      (\<exists>w2. extract_next_nameservers e r w = Inl (AttributeError, w2) \<and> hist w2 = hist w))"
proof -
  have "(\<forall>n \<in> set (ns_hostnames (authority r)). glue n \<noteq> None)
     \<Longrightarrow> filter (\<lambda>n. glue n = None) (ns_hostnames (authority r)) = []"
    by (simp add: filter_empty_conv)
  then show ?thesis
    using extract_next_nameservers_Some [of r glue e w] extract_next_nameservers_None [of r e w]
    by auto
qed

lemma glue_map_full_glue:
  "glue_map (additional referral_full_glue)
     = Some [''a.gtld-servers.net'' \<mapsto> [''192.5.6.30''], ''b.gtld-servers.net'' \<mapsto> [''192.33.14.30'']]"
  by (simp add: glue_map_def referral_full_glue_def additional_step_cases rdtype_def rstrip_dot_def)

lemma glue_map_partial_glue:
  "glue_map (additional referral_partial_glue)
     = Some [''ns1.example.com'' \<mapsto> [''1.1.1.1'', ''1.1.1.2'']]"
  by (simp add: glue_map_def referral_partial_glue_def additional_step_cases rdtype_def rstrip_dot_def)

lemma glue_map_class5: "glue_map (additional referral_class5) = None"
  by (simp add: glue_map_def referral_class5_def additional_step_cases rdtype_def rstrip_dot_def)

theorem next_hops_from_glue_or_fallback_witness:
  "ns_hostnames (authority referral_full_glue) = [''a.gtld-servers.net'', ''b.gtld-servers.net'']
   \<and> (\<exists>w2. extract_next_nameservers env_fallback referral_full_glue \<lparr>hist = [], out = []\<rparr>
            = Inr ([''192.5.6.30'', ''192.33.14.30''], w2)
        \<and> hist w2 = [])
   \<and> (\<exists>w2. extract_next_nameservers env_fallback referral_partial_glue \<lparr>hist = [], out = []\<rparr>
            = Inr ([''1.1.1.1'', ''1.1.1.2'', ''7.7.7.7'', ''7.7.7.8''], w2)
        \<and> hist w2 = [ResolveNS ''ns2.example.org'', ResolveNS ''ns3.example.net''])
   \<and> (\<exists>w2. extract_next_nameservers env_fallback referral_class5 \<lparr>hist = [], out = []\<rparr>
            = Inl (AttributeError, w2)
        \<and> hist w2 = [])"
proof -
  let ?w = "\<lparr>hist = [], out = []\<rparr>"
  have n1: "ns_hostnames (authority referral_full_glue) = [''a.gtld-servers.net'', ''b.gtld-servers.net'']"
    by (simp add: ns_hostnames_def referral_full_glue_def rdtype_def rstrip_dot_def)
  have n2: "ns_hostnames (authority referral_partial_glue)
      = [''ns1.example.com'', ''ns2.example.org'', ''ns3.example.net'']"
    by (simp add: ns_hostnames_def referral_partial_glue_def rdtype_def rstrip_dot_def)
  have "\<exists>w2. extract_next_nameservers env_fallback referral_full_glue ?w
            = Inr ([''192.5.6.30'', ''192.33.14.30''], w2) \<and> hist w2 = []"
    using next_hops_from_glue_or_fallback [of referral_full_glue
        "[''a.gtld-servers.net'' \<mapsto> [''192.5.6.30''], ''b.gtld-servers.net'' \<mapsto> [''192.33.14.30'']]"
        env_fallback ?w]
      glue_map_full_glue
    by (simp add: n1)
  moreover have "\<exists>w2. extract_next_nameservers env_fallback referral_partial_glue ?w
            = Inr ([''1.1.1.1'', ''1.1.1.2'', ''7.7.7.7'', ''7.7.7.8''], w2)
        \<and> hist w2 = [ResolveNS ''ns2.example.org'', ResolveNS ''ns3.example.net'']"
    using next_hops_from_glue_or_fallback [of referral_partial_glue
        "[''ns1.example.com'' \<mapsto> [''1.1.1.1'', ''1.1.1.2'']]" env_fallback ?w]
      glue_map_partial_glue
    by (simp add: n2 env_fallback_def resolve_ns_name_def)
  moreover have "\<exists>w2. extract_next_nameservers env_fallback referral_class5 ?w
            = Inl (AttributeError, w2) \<and> hist w2 = []"
    using next_hops_from_glue_or_fallback [of referral_class5 _ env_fallback ?w]
      glue_map_class5
    by simp
  ultimately show ?thesis using n1 by blast
qed

text \<open>
  C7 as stated: the glue map entry of a hostname holds all addresses of all A sets of the
  additional section owned by that hostname. It fails when a hostname owns two A sets:
  the dictionary assignment of the second set replaces the first.
\<close>

theorem glue_all_addresses_counterexample:
  "glue_map twice_glued \<noteq> None
   \<and> the (glue_map twice_glued) ''ns1.example.com'' = Some [''2.2.2.2'']
   \<and> spec_glue twice_glued ''ns1.example.com'' = Some [''1.1.1.1'', ''2.2.2.2'']"
  by (simp add: twice_glued_def glue_map_def additional_step_cases spec_glue_def rdtype_def
      rstrip_dot_def)

text \<open>
  C7, amended: the glue map entry of a hostname holds the addresses of the last A set of
  the additional section owned by that hostname (trailing dots stripped), and no entry
  when there is none; when the hostname owns at most one A set, these are all the
  addresses the section carries for it.
\<close>

theorem glue_last_set_wins:
  assumes "glue_map rrsets = Some glue"
  shows "glue h =
     (case filter (\<lambda>rs. rdtype rs = rdatatype_A \<and> rstrip_dot (name rs) = h) rrsets of
        [] \<Rightarrow> None
      | x # xs \<Rightarrow> Some (carried_addresses (last (x # xs))))
   \<and> (length (filter (\<lambda>rs. rdtype rs = rdatatype_A \<and> rstrip_dot (name rs) = h) rrsets) \<le> 1
        \<longrightarrow> glue h = spec_glue rrsets h)"
proof -
  let ?sets = "filter (\<lambda>rs. rdtype rs = rdatatype_A \<and> rstrip_dot (name rs) = h) rrsets"
  have a: "glue h =
     (case ?sets of [] \<Rightarrow> None | x # xs \<Rightarrow> Some (carried_addresses (last (x # xs))))"
    by (rule glue_map_lookup [OF assms])
  have b: "glue h = spec_glue rrsets h" if "length ?sets \<le> 1"
  proof (cases ?sets)
    case Nil
    then show ?thesis using a by (simp add: spec_glue_def)
  next
    case (Cons x xs)
    then have "xs = []" using that by simp
    then show ?thesis using a Cons by (simp add: spec_glue_def)
  qed
  show ?thesis using a b by blast
qed

theorem glue_last_set_wins_witness:
  "\<exists>g1 g2. glue_map (additional referral_full_glue) = Some g1
     \<and> length (filter (\<lambda>rs. rdtype rs = rdatatype_A \<and> rstrip_dot (name rs) = ''a.gtld-servers.net'')
         (additional referral_full_glue)) \<le> 1
     \<and> g1 ''a.gtld-servers.net'' = Some [''192.5.6.30'']
     \<and> spec_glue (additional referral_full_glue) ''a.gtld-servers.net'' = Some [''192.5.6.30'']
     \<and> glue_map twice_glued = Some g2
     \<and> g2 ''ns1.example.com'' = Some [''2.2.2.2'']"
proof -
  obtain g1 where g1: "glue_map (additional referral_full_glue) = Some g1"
    using glue_map_full_glue by simp
  obtain g2 where g2: "glue_map twice_glued = Some g2"
    by (simp add: twice_glued_def glue_map_def additional_step_cases rdtype_def)
  have l: "length (filter (\<lambda>rs. rdtype rs = rdatatype_A \<and> rstrip_dot (name rs) = ''a.gtld-servers.net'')
         (additional referral_full_glue)) \<le> 1"
    by (simp add: referral_full_glue_def rdtype_def rstrip_dot_def)
  note t1 = glue_last_set_wins [OF g1, of "''a.gtld-servers.net''"]
  have e1: "g1 ''a.gtld-servers.net'' = Some [''192.5.6.30'']"
    using t1 [THEN conjunct1] by (simp add: referral_full_glue_def rdtype_def rstrip_dot_def)
  have s1: "spec_glue (additional referral_full_glue) ''a.gtld-servers.net'' = Some [''192.5.6.30'']"
    using t1 [THEN conjunct2] l e1 by simp
  have e2: "g2 ''ns1.example.com'' = Some [''2.2.2.2'']"
    using glue_last_set_wins [OF g2, of "''ns1.example.com''", THEN conjunct1]
    by (simp add: twice_glued_def rdtype_def rstrip_dot_def)
  show ?thesis using g1 g2 l e1 s1 e2 by blast
qed

section \<open>Claims about failing candidates\<close>

lemma loop_iter_absorbed:
  assumes "next_ns_list s = ns_ip # rest"
    and "absorbed (fst (send_dns_query e ns_ip domain (world s)))"
  shows "\<exists>s'. loop_iter e domain s = Inl s' \<and> next_ns_list s' = rest \<and> stage s' = stage s
            \<and> hist (world s') = hist (world s) @ [SendQuery ns_ip domain]"
  using assms(2)
  by (cases "fst (send_dns_query e ns_ip domain (world s))")
     (simp_all add: loop_iter_Cons [OF assms(1) refl refl] absorbed_def)

lemma loop_all_absorbed:
  assumes "all_absorbed e domain (hist (world s)) (next_ns_list s)"
  shows "\<exists>w'. loop e domain s = Some (Failure, w')
           \<and> hist w' = hist (world s) @ map (\<lambda>x. SendQuery x domain) (next_ns_list s)"
  using assms
proof (induction "next_ns_list s" arbitrary: s)
  case Nil
  then show ?case
    using loop_Inr [OF loop_iter_Nil [of s e domain]] by simp
next
  case (Cons ns_ip rest)
  have q: "next_ns_list s = ns_ip # rest" using Cons.hyps(2) by simp
  have "fst (send_dns_query e ns_ip domain (world s))
       = fst (send_dns_query e ns_ip domain \<lparr>hist = hist (world s), out = []\<rparr>)"
    by (rule fst_send_dns_query_hist) simp
  then have "absorbed (fst (send_dns_query e ns_ip domain (world s)))"
    using Cons.prems q by simp
  from loop_iter_absorbed [OF q this]
  obtain s' where s': "loop_iter e domain s = Inl s'" "next_ns_list s' = rest"
    "hist (world s') = hist (world s) @ [SendQuery ns_ip domain]"
    by blast
  have "all_absorbed e domain (hist (world s')) (next_ns_list s')"
    using Cons.prems q s' by simp
  from Cons.hyps(1) [OF s'(2) [symmetric] this]
  obtain w' where "loop e domain s' = Some (Failure, w')"
    "hist w' = hist (world s') @ map (\<lambda>x. SendQuery x domain) (next_ns_list s')"
    by blast
  then show ?case
    using loop_Inl [OF s'(1)] s' q by simp
qed

text \<open>
  C3. In a pass whose query gets no reply, or a reply with a code other than NOERROR and
  NXDOMAIN, exactly the head of the queue is dropped, the stage and the rest of the queue
  stay as they are, and the loop goes on. When every candidate of the queue is answered
  that way, the run ends with failure after one query for each candidate and no other
  call; from the five root servers, after exactly five queries.
\<close>

theorem failed_candidates_dropped:
  "(next_ns_list s = ns_ip # rest \<and> absorbed (fst (send_dns_query e ns_ip domain (world s)))
      \<longrightarrow> (\<exists>s'. loop_iter e domain s = Inl s' \<and> next_ns_list s' = rest \<and> stage s' = stage s
             \<and> hist (world s') = hist (world s) @ [SendQuery ns_ip domain]))
   \<and> (all_absorbed e domain (hist (world t)) (next_ns_list t)
      \<longrightarrow> (\<exists>w'. loop e domain t = Some (Failure, w')
             \<and> hist w' = hist (world t) @ map (\<lambda>x. SendQuery x domain) (next_ns_list t)))
   \<and> (all_absorbed e domain [] (map fst ROOT_SERVERS)
      \<longrightarrow> (\<exists>w'. iterative_dns_lookup e domain = Some (Failure, w')
             \<and> hist w' = map (\<lambda>x. SendQuery x domain) (map fst ROOT_SERVERS)
             \<and> length (hist w') = 5))"
proof -
  have "\<exists>w'. iterative_dns_lookup e domain = Some (Failure, w')
             \<and> hist w' = map (\<lambda>x. SendQuery x domain) (map fst ROOT_SERVERS)
             \<and> length (hist w') = 5"
    if "all_absorbed e domain [] (map fst ROOT_SERVERS)"
  proof -
    have "all_absorbed e domain (hist (world (init_state domain))) (next_ns_list (init_state domain))"
      using that by (simp add: init_state_def)
    from loop_all_absorbed [OF this] show ?thesis
      by (auto simp: iterative_dns_lookup_def init_state_def)
  qed
  then show ?thesis
    using loop_iter_absorbed [of s ns_ip rest e domain] loop_all_absorbed [of e domain t]
    by blast
qed

theorem failed_candidates_dropped_witness:
  "all_absorbed env_down ''example.com'' [] (map fst ROOT_SERVERS)
   \<and> (\<exists>s'. loop_iter env_down ''example.com'' (init_state ''example.com'') = Inl s'
         \<and> next_ns_list s' = [''199.9.14.201'', ''192.33.4.12'', ''199.7.91.13'', ''192.203.230.10'']
         \<and> stage s' = ROOT
         \<and> hist (world s') = [SendQuery ''198.41.0.4'' ''example.com''])
   \<and> (\<exists>w'. iterative_dns_lookup env_down ''example.com'' = Some (Failure, w')
         \<and> hist w' = [SendQuery ''198.41.0.4'' ''example.com'',
                       SendQuery ''199.9.14.201'' ''example.com'',
                       SendQuery ''192.33.4.12'' ''example.com'',
                       SendQuery ''199.7.91.13'' ''example.com'',
                       SendQuery ''192.203.230.10'' ''example.com'']
         \<and> length (hist w') = 5)"
proof -
  let ?d = "''example.com''"
  have a: "all_absorbed env_down ?d [] (map fst ROOT_SERVERS)"
    by (simp add: absorbed_def send_dns_query_def env_down_def mk_query_def RECORD_TYPE_def)
  have b: "next_ns_list (init_state ?d) = ''198.41.0.4'' # [''199.9.14.201'', ''192.33.4.12'', ''199.7.91.13'', ''192.203.230.10'']"
    by (simp add: init_state_def)
  have c: "absorbed (fst (send_dns_query env_down ''198.41.0.4'' ?d (world (init_state ?d))))"
    by (simp add: absorbed_def send_dns_query_def env_down_def mk_query_def RECORD_TYPE_def init_state_def)
  have d: "all_absorbed env_down ?d (hist (world (init_state ?d))) (next_ns_list (init_state ?d))"
    using a by (simp add: init_state_def)
  from failed_candidates_dropped [of "init_state ?d" "''198.41.0.4''" _ env_down ?d "init_state ?d"]
  show ?thesis using a b c d by (simp add: init_state_def)
qed

section \<open>Claims about delegation and the stage label\<close>

lemma filter_is_query_ResolveNS [simp]: "filter is_query (map ResolveNS ns) = []"
  by (induction ns) simp_all

lemma extract_queries:
  "extract_next_nameservers e r w = Inr (nxt, w2) \<Longrightarrow>
   filter is_query (hist w2) = filter is_query (hist w)"
  using extract_next_nameservers_hist [of e r w] by auto

lemma extract_referral_full_glue:
  "\<exists>w2. extract_next_nameservers e referral_full_glue w
          = Inr ([''192.5.6.30'', ''192.33.14.30''], w2)
        \<and> hist w2 = hist w"
proof -
  have "ns_hostnames (authority referral_full_glue) = [''a.gtld-servers.net'', ''b.gtld-servers.net'']"
    by (simp add: ns_hostnames_def referral_full_glue_def rdtype_def rstrip_dot_def)
  then show ?thesis
    using extract_next_nameservers_Some [OF glue_map_full_glue, of e w] by simp
qed

lemma extract_nodata: "extract_next_nameservers e nodata w = Inr ([], w)"
  by (simp add: extract_next_nameservers_def nodata_def)

lemma loop_iter_stage:
  assumes "loop_iter e domain s = Inl s'"
  shows "stage_rank (stage s) \<le> stage_rank (stage s')"
proof (cases "next_ns_list s")
  case Nil
  then show ?thesis using assms by (simp add: loop_iter_Nil)
next
  case (Cons ns_ip rest)
  have "stage_rank (stage s) \<le> stage_rank (next_stage (stage s))"
    by (cases "stage s") (simp_all add: next_stage_def)
  then show ?thesis
    using assms
    by (auto simp: loop_iter_Cons [OF Cons refl refl]
        split: option.splits if_splits prod.splits sum.splits)
qed

lemma iterations_stage:
  "iterations k e domain s = Some s' \<Longrightarrow> stage_rank (stage s) \<le> stage_rank (stage s')"
proof (induction k arbitrary: s)
  case 0
  then show ?case by simp
next
  case (Suc k)
  then obtain s1 where s1: "loop_iter e domain s = Inl s1" "iterations k e domain s1 = Some s'"
    by (auto split: sum.splits)
  then show ?case
    using loop_iter_stage [OF s1(1)] Suc.IH [OF s1(2)] by simp
qed

lemma iterations_add:
  "iterations (i + k) e domain s0 =
     (case iterations i e domain s0 of None \<Rightarrow> None | Some s \<Rightarrow> iterations k e domain s)"
  by (induction i arbitrary: s0) (simp_all split: sum.splits)

lemma cycle_step:
  assumes "next_ns_list s \<noteq> []"
  shows "\<exists>s'. loop_iter env_cycle domain s = Inl s'
           \<and> next_ns_list s' = [''192.5.6.30'', ''192.33.14.30'']
           \<and> stage s' = next_stage (stage s)"
proof -
  obtain ns_ip rest where q: "next_ns_list s = ns_ip # rest"
    using assms by (cases "next_ns_list s") simp_all
  let ?w1 = "called (SendQuery ns_ip domain) (print (Querying (stage s) ns_ip) (world s))"
  have r: "fst (send_dns_query env_cycle ns_ip domain (world s)) = Some referral_full_glue"
    by (simp add: send_dns_query_def env_cycle_def mk_query_def RECORD_TYPE_def)
  obtain w2 where "extract_next_nameservers env_cycle referral_full_glue ?w1
      = Inr ([''192.5.6.30'', ''192.33.14.30''], w2)"
    using extract_referral_full_glue [of env_cycle ?w1] by blast
  then show ?thesis
    by (simp add: loop_iter_Cons [OF q r refl] referral_full_glue_def)
qed

text \<open>
  C4. In a pass whose reply has the code NOERROR and an empty answer section: when the
  delegation step yields at least one address, the queue at the next pass is exactly that
  address list (nothing of the old queue is kept) and the stage goes from ROOT to TLD,
  from TLD to AUTH, and stays AUTH; when it yields no address, the run ends with failure
  and no transport query beyond this pass's is issued.
\<close>

theorem delegation_replaces_queue:
  assumes "iterations n e domain (init_state domain) = Some s"
    and "next_ns_list s = ns_ip # rest"
    and "fst (send_dns_query e ns_ip domain (world s)) = Some r"
    and "rcode r = NOERROR"
    and "answer r = []"
    and "extract_next_nameservers e r
           (called (SendQuery ns_ip domain) (print (Querying (stage s) ns_ip) (world s)))
         = Inr (nxt, w2)"
  shows "(nxt \<noteq> [] \<longrightarrow>
           (\<exists>s'. loop_iter e domain s = Inl s' \<and> next_ns_list s' = nxt
               \<and> stage s' = (case stage s of ROOT \<Rightarrow> TLD | TLD \<Rightarrow> AUTH | AUTH \<Rightarrow> AUTH)
               \<and> world s' = w2))
       \<and> (nxt = [] \<longrightarrow>
           (\<exists>w'. iterative_dns_lookup e domain = Some (Failure, w')
               \<and> filter is_query (hist w')
                   = filter is_query (hist (world s)) @ [SendQuery ns_ip domain]))"
proof -
  let ?w1 = "called (SendQuery ns_ip domain) (print (Querying (stage s) ns_ip) (world s))"
  have it: "loop_iter e domain s =
      (if nxt = [] then Inr (Failure, print NoFurtherNS w2)
       else Inl \<lparr>next_ns_list = nxt, stage = next_stage (stage s), world = w2\<rparr>)"
    using assms(3,4,5,6) by (simp add: loop_iter_Cons [OF assms(2) refl refl])
  have st: "next_stage (stage s) = (case stage s of ROOT \<Rightarrow> TLD | TLD \<Rightarrow> AUTH | AUTH \<Rightarrow> AUTH)"
    by (cases "stage s") (simp_all add: next_stage_def)
  have q: "filter is_query (hist w2) = filter is_query (hist (world s)) @ [SendQuery ns_ip domain]"
    using extract_queries [OF assms(6)] by simp
  have "iterative_dns_lookup e domain = Some (Failure, print NoFurtherNS w2)" if "nxt = []"
  proof -
    have "loop e domain s = Some (Failure, print NoFurtherNS w2)"
      using it that by (intro loop_Inr) simp
    then show ?thesis
      using loop_iterations [OF assms(1)] by (simp add: iterative_dns_lookup_def)
  qed
  then show ?thesis using it st q by auto
qed

theorem delegation_replaces_queue_witness:
  "(\<exists>s'. loop_iter env_referral_once ''example.com'' (init_state ''example.com'') = Inl s'
        \<and> next_ns_list s' = [''192.5.6.30'', ''192.33.14.30''] \<and> stage s' = TLD)
   \<and> (\<exists>w'. iterative_dns_lookup env_referral_once ''example.com'' = Some (Failure, w')
        \<and> filter is_query (hist w')
            = [SendQuery ''198.41.0.4'' ''example.com'', SendQuery ''192.5.6.30'' ''example.com''])"
proof -
  let ?d = "''example.com''"
  let ?e = env_referral_once
  let ?w1 = "called (SendQuery ''198.41.0.4'' ?d) (print (Querying (stage (init_state ?d)) ''198.41.0.4'') (world (init_state ?d)))"
  have a: "iterations 0 ?e ?d (init_state ?d) = Some (init_state ?d)" by simp
  have b: "next_ns_list (init_state ?d) = ''198.41.0.4'' # [''199.9.14.201'', ''192.33.4.12'', ''199.7.91.13'', ''192.203.230.10'']"
    by (simp add: init_state_def)
  have c: "fst (send_dns_query ?e ''198.41.0.4'' ?d (world (init_state ?d))) = Some referral_full_glue"
    by (simp add: send_dns_query_def env_referral_once_def mk_query_def RECORD_TYPE_def init_state_def)
  have d: "rcode referral_full_glue = NOERROR" "answer referral_full_glue = []"
    by (simp_all add: referral_full_glue_def)
  obtain w2 where ex: "extract_next_nameservers ?e referral_full_glue ?w1
      = Inr ([''192.5.6.30'', ''192.33.14.30''], w2)"
    and hw2: "hist w2 = hist ?w1"
    using extract_referral_full_glue [of ?e ?w1] by blast
  from delegation_replaces_queue [OF a b c d ex]
  obtain s' where s': "loop_iter ?e ?d (init_state ?d) = Inl s'"
      "next_ns_list s' = [''192.5.6.30'', ''192.33.14.30'']" "stage s' = TLD" "world s' = w2"
    by (auto simp: init_state_def)
  have h': "hist (world s') = [SendQuery ''198.41.0.4'' ?d]"
    using s'(4) hw2 by (simp add: init_state_def)
  have a': "iterations (Suc 0) ?e ?d (init_state ?d) = Some s'"
    using s'(1) by simp
  have b': "next_ns_list s' = ''192.5.6.30'' # [''192.33.14.30'']"
    using s'(2) by simp
  have c': "fst (send_dns_query ?e ''192.5.6.30'' ?d (world s')) = Some nodata"
    using h' by (simp add: send_dns_query_def env_referral_once_def mk_query_def RECORD_TYPE_def)
  have d': "rcode nodata = NOERROR" "answer nodata = []"
    by (simp_all add: nodata_def)
  from delegation_replaces_queue [OF a' b' c' d' extract_nodata]
  have "\<exists>w'. iterative_dns_lookup ?e ?d = Some (Failure, w')
        \<and> filter is_query (hist w') = [SendQuery ''198.41.0.4'' ?d, SendQuery ''192.5.6.30'' ?d]"
    using h' by simp
  then show ?thesis using s' by blast
qed

text \<open>
  C5. The stage label never goes back during a run: between an earlier and a later pass
  of the same run the stage does not decrease; from TLD it never becomes ROOT again, and
  from AUTH it stays AUTH.
\<close>

theorem stage_monotonic:
  assumes "iterations i e domain s0 = Some si"
    and "iterations j e domain s0 = Some sj"
    and "i \<le> j"
  shows "stage_rank (stage si) \<le> stage_rank (stage sj)
       \<and> (stage si = TLD \<longrightarrow> stage sj \<noteq> ROOT)
       \<and> (stage si = AUTH \<longrightarrow> stage sj = AUTH)"
proof -
  have "iterations (i + (j - i)) e domain s0 = Some sj"
    using assms(2,3) by simp
  then have "iterations (j - i) e domain si = Some sj"
    using assms(1) by (simp add: iterations_add)
  then have "stage_rank (stage si) \<le> stage_rank (stage sj)"
    by (rule iterations_stage)
  then show ?thesis
    by (cases "stage si"; cases "stage sj") simp_all
qed

theorem stage_monotonic_witness:
  "\<exists>s1 s2 s3. iterations 1 env_cycle ''example.com'' (init_state ''example.com'') = Some s1
     \<and> iterations 2 env_cycle ''example.com'' (init_state ''example.com'') = Some s2
     \<and> iterations 3 env_cycle ''example.com'' (init_state ''example.com'') = Some s3
     \<and> stage s1 = TLD \<and> stage s2 \<noteq> ROOT \<and> stage s2 = AUTH \<and> stage s3 = AUTH"
proof -
  let ?d = "''example.com''"
  have "next_ns_list (init_state ?d) \<noteq> []" by (simp add: init_state_def)
  from cycle_step [OF this, of ?d] obtain s1 where
    s1: "loop_iter env_cycle ?d (init_state ?d) = Inl s1" "next_ns_list s1 \<noteq> []" "stage s1 = TLD"
    by (auto simp: init_state_def next_stage_def)
  from cycle_step [OF s1(2), of ?d] obtain s2 where
    s2: "loop_iter env_cycle ?d s1 = Inl s2" "next_ns_list s2 \<noteq> []" "stage s2 = AUTH"
    using s1(3) by (auto simp: next_stage_def)
  from cycle_step [OF s2(2), of ?d] obtain s3 where
    s3: "loop_iter env_cycle ?d s2 = Inl s3"
    by auto
  have i1: "iterations 1 env_cycle ?d (init_state ?d) = Some s1"
    using s1(1) by simp
  have i2: "iterations 2 env_cycle ?d (init_state ?d) = Some s2"
    using s1(1) s2(1) by (simp add: numeral_2_eq_2)
  have i3: "iterations 3 env_cycle ?d (init_state ?d) = Some s3"
    using s1(1) s2(1) s3(1) by (simp add: numeral_3_eq_3)
  have "stage s2 \<noteq> ROOT"
    using stage_monotonic [OF i1 i2] s1(3) by simp
  moreover have "stage s3 = AUTH"
    using stage_monotonic [OF i2 i3] s2(3) by simp
  ultimately show ?thesis
    using i1 i2 i3 s1(3) s2(3) by blast
qed

section \<open>Claims about whole runs\<close>

text \<open>
  An invariant of the states at the loop test holds of the result, when there is one.
\<close>

lemma loop_invariant:
  assumes run: "loop e domain s = Some res"
    and init: "I s"
    and step: "\<And>s s'. I s \<Longrightarrow> loop_iter e domain s = Inl s' \<Longrightarrow> I s'"
    and fin: "\<And>s res. I s \<Longrightarrow> loop_iter e domain s = Inr res \<Longrightarrow> Q res"
  shows "Q res"
proof -
  have "e' = e \<and> d' = domain \<and> I s \<longrightarrow> Q res"
    if "loop e' d' s = Some res" for e' d'
  proof (rule loop.raw_induct [where P = "\<lambda>e' d' s res. e' = e \<and> d' = domain \<and> I s \<longrightarrow> Q res",
        OF _ that])
    fix f e' d' s res
    assume ih: "\<And>e' d' s res. f e' d' s = Some res \<Longrightarrow> e' = e \<and> d' = domain \<and> I s \<longrightarrow> Q res"
      and eq: "(case loop_iter e' d' s of Inl s' \<Rightarrow> f e' d' s' | Inr r \<Rightarrow> Some r) = Some res"
    show "e' = e \<and> d' = domain \<and> I s \<longrightarrow> Q res"
    proof (intro impI, elim conjE)
      assume a: "e' = e" "d' = domain" "I s"
      show "Q res"
      proof (cases "loop_iter e domain s")
        case (Inl s')
        then have "f e domain s' = Some res" using eq a by simp
        moreover have "I s'" using step [OF a(3) Inl] .
        ultimately show ?thesis using ih by blast
      next
        case (Inr r)
        then have "r = res" using eq a by simp
        then show ?thesis using fin [OF a(3)] Inr by simp
      qed
    qed
  qed
  then show ?thesis using run init by blast
qed

text \<open>
  C2 as stated: for every behaviour of the collaborators a run terminates. It fails when
  every reply is a referral with glue: the queue is refilled in every pass and the loop
  never returns.
\<close>

theorem endless_referrals_counterexample:
  "iterative_dns_lookup env_cycle ''example.com'' = None"
proof (cases "iterative_dns_lookup env_cycle ''example.com''")
  case None
  then show ?thesis .
next
  case (Some res)
  then have run: "loop env_cycle ''example.com'' (init_state ''example.com'') = Some res"
    by (simp add: iterative_dns_lookup_def)
  have "False"
  proof (rule loop_invariant [OF run, where I = "\<lambda>s. next_ns_list s \<noteq> []" and Q = "\<lambda>_. False"])
    show "next_ns_list (init_state ''example.com'') \<noteq> []"
      by (simp add: init_state_def)
  next
    fix s s'
    assume "next_ns_list s \<noteq> []" "loop_iter env_cycle ''example.com'' s = Inl s'"
    then show "next_ns_list s' \<noteq> []"
      using cycle_step [of s "''example.com''"] by auto
  next
    fix s res
    assume "next_ns_list s \<noteq> []" "loop_iter env_cycle ''example.com'' s = Inr res"
    then show False
      using cycle_step [of s "''example.com''"] by auto
  qed
  then show ?thesis ..
qed

lemma iterations_None_returns:
  "iterations n e domain s = None \<Longrightarrow> \<exists>res. loop e domain s = Some res"
proof (induction n arbitrary: s)
  case 0
  then show ?case by simp
next
  case (Suc n)
  show ?case
  proof (cases "loop_iter e domain s")
    case (Inl s')
    then show ?thesis using Suc loop_Inl [OF Inl] by simp
  next
    case (Inr res)
    then show ?thesis using loop_Inr [OF Inr] by blast
  qed
qed

lemma iterations_Suc_end:
  "iterations n e domain s0 = Some s \<Longrightarrow> loop_iter e domain s = Inl s' \<Longrightarrow>
   iterations (Suc n) e domain s0 = Some s'"
  using iterations_add [of n 1 e domain s0] by simp

lemma loop_iter_not_delegation:
  assumes "next_ns_list s = ns_ip # rest"
    and "\<not> delegates (fst (send_dns_query e ns_ip domain (world s)))"
    and "loop_iter e domain s = Inl s'"
  shows "next_ns_list s' = rest"
  using assms(2,3)
  by (auto simp: loop_iter_Cons [OF assms(1) refl refl] delegates_def
      split: option.splits if_splits sum.splits)

lemma returns_once_referrals_stop:
  assumes bound: "\<And>n s ns_ip rest. N \<le> n \<Longrightarrow> iterations n e domain s0 = Some s \<Longrightarrow>
      next_ns_list s = ns_ip # rest \<Longrightarrow>
      \<not> delegates (fst (send_dns_query e ns_ip domain (world s)))"
    and "iterations n e domain s0 = Some s"
    and "N \<le> n"
  shows "\<exists>res. loop e domain s = Some res"
  using assms(2,3)
proof (induction "next_ns_list s" arbitrary: s n)
  case Nil
  then show ?case
    using loop_Inr [OF loop_iter_Nil [of s e domain]] by simp
next
  case (Cons ns_ip rest)
  have q: "next_ns_list s = ns_ip # rest" using Cons.hyps(2) by simp
  have nd: "\<not> delegates (fst (send_dns_query e ns_ip domain (world s)))"
    using bound [OF Cons.prems(2) Cons.prems(1) q] .
  show ?case
  proof (cases "loop_iter e domain s")
    case (Inl s')
    have "rest = next_ns_list s'"
      using loop_iter_not_delegation [OF q nd Inl] by simp
    moreover have "iterations (Suc n) e domain s0 = Some s'"
      using iterations_Suc_end [OF Cons.prems(1) Inl] .
    moreover have "N \<le> Suc n" using Cons.prems(2) by simp
    ultimately have "\<exists>res. loop e domain s' = Some res"
      using Cons.hyps(1) by blast
    then show ?thesis using loop_Inl [OF Inl] by simp
  next
    case (Inr res)
    then show ?thesis using loop_Inr [OF Inr] by blast
  qed
qed

lemma glue_map_referral_x: "glue_map (additional referral_x) = Some [''X'' \<mapsto> [''1.2.3.4'']]"
  by (simp add: glue_map_def referral_x_def additional_step_cases rdtype_def rstrip_dot_def)

lemma extract_referral_x:
  "\<exists>w2. extract_next_nameservers e referral_x w = Inr ([''1.2.3.4''], w2) \<and> hist w2 = hist w"
proof -
  have "ns_hostnames (authority referral_x) = [''X'']"
    by (simp add: ns_hostnames_def referral_x_def rdtype_def rstrip_dot_def)
  then show ?thesis
    using extract_next_nameservers_Some [OF glue_map_referral_x, of e w] by simp
qed

lemma scenario_a_first_pass:
  "\<exists>s1. loop_iter env_scenario_a ''example.com'' (init_state ''example.com'') = Inl s1
      \<and> next_ns_list s1 = [''1.2.3.4'']
      \<and> hist (world s1) = [SendQuery ''198.41.0.4'' ''example.com'']"
proof -
  let ?d = "''example.com''"
  let ?w1 = "called (SendQuery ''198.41.0.4'' ?d)
      (print (Querying (stage (init_state ?d)) ''198.41.0.4'') (world (init_state ?d)))"
  have q: "next_ns_list (init_state ?d) = ''198.41.0.4'' #
      [''199.9.14.201'', ''192.33.4.12'', ''199.7.91.13'', ''192.203.230.10'']"
    by (simp add: init_state_def)
  have r: "fst (send_dns_query env_scenario_a ''198.41.0.4'' ?d (world (init_state ?d)))
      = Some referral_x"
    by (simp add: send_dns_query_def env_scenario_a_def mk_query_def RECORD_TYPE_def)
  have rc: "rcode referral_x = NOERROR" "answer referral_x = []"
    by (simp_all add: referral_x_def)
  have h1: "hist ?w1 = [SendQuery ''198.41.0.4'' ?d]"
    by (simp add: init_state_def)
  obtain w2 where "extract_next_nameservers env_scenario_a referral_x ?w1 = Inr ([''1.2.3.4''], w2)"
    and "hist w2 = hist ?w1"
    using extract_referral_x [of env_scenario_a ?w1] by blast
  then show ?thesis
    using h1 by (simp add: loop_iter_Cons [OF q r refl] rc)
qed

lemma scenario_a_second_pass:
  assumes "next_ns_list s1 = [''1.2.3.4'']"
  shows "fst (send_dns_query env_scenario_a ''1.2.3.4'' ''example.com'' (world s1)) = Some answer_5678"
    and "\<exists>w'. loop_iter env_scenario_a ''example.com'' s1 = Inr (Success, w')
          \<and> hist w' = hist (world s1) @ [SendQuery ''1.2.3.4'' ''example.com'']"
proof -
  show r: "fst (send_dns_query env_scenario_a ''1.2.3.4'' ''example.com'' (world s1)) = Some answer_5678"
    by (simp add: send_dns_query_def env_scenario_a_def mk_query_def RECORD_TYPE_def)
  show "\<exists>w'. loop_iter env_scenario_a ''example.com'' s1 = Inr (Success, w')
          \<and> hist w' = hist (world s1) @ [SendQuery ''1.2.3.4'' ''example.com'']"
    by (simp add: loop_iter_Cons [OF assms r refl] answer_5678_def print_answer_eq)
qed

text \<open>A pass ends with an exception only at a referral that is not addressed.\<close>

lemma loop_iter_raises:
  assumes "loop_iter e domain s = Inr (Raised ex, w')"
  shows "\<exists>ns_ip rest r. next_ns_list s = ns_ip # rest
           \<and> fst (send_dns_query e ns_ip domain (world s)) = Some r
           \<and> rcode r = NOERROR \<and> answer r = [] \<and> \<not> addressed (additional r)"
proof (cases "next_ns_list s")
  case Nil
  then show ?thesis using assms by (simp add: loop_iter_Nil)
next
  case (Cons ns_ip rest)
  let ?w1 = "called (SendQuery ns_ip domain) (print (Querying (stage s) ns_ip) (world s))"
  show ?thesis
  proof (cases "fst (send_dns_query e ns_ip domain (world s))")
    case None
    then show ?thesis using assms by (simp add: loop_iter_Cons [OF Cons None refl])
  next
    case (Some r)
    have ref: "rcode r = NOERROR \<and> answer r = []"
      using assms by (auto simp: loop_iter_Cons [OF Cons Some refl] split: if_splits)
    have "\<exists>w2. extract_next_nameservers e r ?w1 = Inl (ex, w2)"
      using assms ref
      by (auto simp: loop_iter_Cons [OF Cons Some refl] split: sum.splits prod.splits if_splits)
    then have "glue_map (additional r) = None"
      using extract_next_nameservers_Some [of r _ e ?w1]
      by (cases "glue_map (additional r)") auto
    then have "\<not> addressed (additional r)"
      using glue_map_addressed [of "additional r"] by simp
    then show ?thesis using Cons Some ref by blast
  qed
qed

lemma loop_no_exception:
  assumes addr: "\<And>n s ns_ip rest r. iterations n e domain s0 = Some s \<Longrightarrow>
      next_ns_list s = ns_ip # rest \<Longrightarrow>
      fst (send_dns_query e ns_ip domain (world s)) = Some r \<Longrightarrow>
      rcode r = NOERROR \<Longrightarrow> answer r = [] \<Longrightarrow> addressed (additional r)"
    and run: "loop e domain s0 = Some (oc, w')"
  shows "oc = Success \<or> oc = NonExistent \<or> oc = Failure"
proof -
  have "(\<lambda>res. \<forall>ex. fst res \<noteq> Raised ex) (oc, w')"
  proof (rule loop_invariant [OF run, where I = "\<lambda>s. \<exists>n. iterations n e domain s0 = Some s"])
    show "\<exists>n. iterations n e domain s0 = Some s0"
      by (rule exI [of _ 0]) simp
  next
    fix s s'
    assume "\<exists>n. iterations n e domain s0 = Some s" "loop_iter e domain s = Inl s'"
    then show "\<exists>n. iterations n e domain s0 = Some s'"
      using iterations_Suc_end by blast
  next
    fix s res
    assume reach: "\<exists>n. iterations n e domain s0 = Some s" and fin: "loop_iter e domain s = Inr res"
    show "\<forall>ex. fst res \<noteq> Raised ex"
    proof (intro allI notI)
      fix ex
      assume "fst res = Raised ex"
      then have "loop_iter e domain s = Inr (Raised ex, snd res)"
        using fin by (cases res) simp
      from loop_iter_raises [OF this] reach addr show False by blast
    qed
  qed
  then show ?thesis by (cases oc) simp_all
qed

text \<open>
  C2, amended: a run in which, from some pass on, no reply to the query of the pass is a
  referral (NOERROR with an empty answer section), and in which the address records in
  the additional section of every referral it receives have addresses, terminates, and
  its outcome is exactly one of success, non-existence and failure.
\<close>

theorem run_returns_when_referrals_stop:
  assumes "\<And>n s ns_ip rest. N \<le> n \<Longrightarrow>
      iterations n e domain (init_state domain) = Some s \<Longrightarrow>
      next_ns_list s = ns_ip # rest \<Longrightarrow>
      \<not> delegates (fst (send_dns_query e ns_ip domain (world s)))"
    and "\<And>n s ns_ip rest r. iterations n e domain (init_state domain) = Some s \<Longrightarrow>
      next_ns_list s = ns_ip # rest \<Longrightarrow>
      fst (send_dns_query e ns_ip domain (world s)) = Some r \<Longrightarrow>
      rcode r = NOERROR \<Longrightarrow> answer r = [] \<Longrightarrow> addressed (additional r)"
  shows "\<exists>oc w'. iterative_dns_lookup e domain = Some (oc, w')
           \<and> (oc = Success \<or> oc = NonExistent \<or> oc = Failure)"
proof -
  have "\<exists>res. loop e domain (init_state domain) = Some res"
  proof (cases "iterations N e domain (init_state domain)")
    case None
    then show ?thesis by (rule iterations_None_returns)
  next
    case (Some s)
    have "\<exists>res. loop e domain s = Some res"
      by (rule returns_once_referrals_stop [where N = N and n = N and ?s0.0 = "init_state domain"])
         (use assms(1) Some in auto)
    then show ?thesis using loop_iterations [OF Some] by simp
  qed
  then obtain oc w' where run: "loop e domain (init_state domain) = Some (oc, w')"
    by auto
  have "oc = Success \<or> oc = NonExistent \<or> oc = Failure"
    by (rule loop_no_exception [OF assms(2) run])
  then show ?thesis using run by (simp add: iterative_dns_lookup_def)
qed

theorem run_returns_when_referrals_stop_witness:
  "\<exists>oc w'. iterative_dns_lookup env_scenario_a ''example.com'' = Some (oc, w')
       \<and> (oc = Success \<or> oc = NonExistent \<or> oc = Failure)"
proof (rule run_returns_when_referrals_stop [where N = 1])
  fix n s ns_ip rest
  let ?d = "''example.com''"
  assume n: "1 \<le> n"
    and it: "iterations n env_scenario_a ?d (init_state ?d) = Some s"
    and q: "next_ns_list s = ns_ip # rest"
  obtain s1 where s1: "loop_iter env_scenario_a ?d (init_state ?d) = Inl s1"
      "next_ns_list s1 = [''1.2.3.4'']"
    using scenario_a_first_pass by blast
  obtain w' where fin: "loop_iter env_scenario_a ?d s1 = Inr (Success, w')"
    using scenario_a_second_pass(2) [OF s1(2)] by blast
  obtain m where m: "n = Suc m" using n by (cases n) simp_all
  have "iterations m env_scenario_a ?d s1 = Some s"
    using it s1(1) m by simp
  then have "s = s1"
    using fin by (cases m) simp_all
  then have "ns_ip = ''1.2.3.4''" using q s1(2) by simp
  then show "\<not> delegates (fst (send_dns_query env_scenario_a ns_ip ?d (world s)))"
    using scenario_a_second_pass(1) [OF s1(2)] \<open>s = s1\<close>
    by (simp add: delegates_def answer_5678_def)
next
  fix n s ns_ip rest r
  assume "fst (send_dns_query env_scenario_a ns_ip ''example.com'' (world s)) = Some r"
  then have "r = answer_5678 \<or> r = referral_x"
    by (auto simp: send_dns_query_def env_scenario_a_def mk_query_def split: if_splits)
  then show "addressed (additional r)"
    by (auto simp: addressed_def answer_5678_def referral_x_def)
qed

section \<open>Claims about the name queried and about raised exceptions\<close>

lemma carries_ResolveNS [simp]: "list_all (carries domain) (map ResolveNS ns)"
  by (induction ns) simp_all

lemma hist_print_answer [simp]: "hist (print_answer domain rrsets w) = hist w"
  by (simp add: print_answer_eq)

lemma extract_carries:
  "list_all (carries domain)
     (hist (case extract_next_nameservers e r w of Inl (ex, w2) \<Rightarrow> w2 | Inr (nxt, w2) \<Rightarrow> w2))
   = list_all (carries domain) (hist w)"
  using extract_next_nameservers_hist [of e r w] by auto

lemma loop_iter_carries:
  assumes "list_all (carries domain) (hist (world s))"
  shows "(case loop_iter e domain s of
            Inl s' \<Rightarrow> list_all (carries domain) (hist (world s'))
          | Inr res \<Rightarrow> list_all (carries domain) (hist (snd res)))"
proof (cases "next_ns_list s")
  case Nil
  then show ?thesis using assms by (simp add: loop_iter_Nil)
next
  case (Cons ns_ip rest)
  let ?w1 = "called (SendQuery ns_ip domain) (print (Querying (stage s) ns_ip) (world s))"
  have w1: "list_all (carries domain) (hist ?w1)"
    using assms by simp
  show ?thesis
  proof (cases "fst (send_dns_query e ns_ip domain (world s))")
    case None
    then show ?thesis using w1 by (simp add: loop_iter_Cons [OF Cons None refl])
  next
    case (Some r)
    show ?thesis
    proof (cases "extract_next_nameservers e r ?w1")
      case (Inl raised)
      obtain ex w2 where raised: "raised = (ex, w2)" by (cases raised)
      have "list_all (carries domain) (hist w2)"
        using extract_carries [of domain e r ?w1] Inl raised w1 by simp
      then show ?thesis
        using w1 Inl raised by (simp add: loop_iter_Cons [OF Cons Some refl])
    next
      case (Inr res)
      obtain nxt w2 where res: "res = (nxt, w2)" by (cases res)
      have "list_all (carries domain) (hist w2)"
        using extract_carries [of domain e r ?w1] Inr res w1 by simp
      then show ?thesis
        using w1 Inr res by (simp add: loop_iter_Cons [OF Cons Some refl])
    qed
  qed
qed

lemma iterations_carries:
  "iterations n e domain s = Some s' \<Longrightarrow> list_all (carries domain) (hist (world s)) \<Longrightarrow>
   list_all (carries domain) (hist (world s'))"
proof (induction n arbitrary: s)
  case 0
  then show ?case by simp
next
  case (Suc n)
  then obtain s1 where s1: "loop_iter e domain s = Inl s1" "iterations n e domain s1 = Some s'"
    by (auto split: sum.splits)
  have "list_all (carries domain) (hist (world s1))"
    using loop_iter_carries [OF Suc.prems(2), of e] s1(1) by simp
  then show ?case using Suc.IH [OF s1(2)] by simp
qed

lemma loop_carries:
  assumes "loop e domain s = Some res" and "list_all (carries domain) (hist (world s))"
  shows "list_all (carries domain) (hist (snd res))"
proof (rule loop_invariant [OF assms(1),
      where I = "\<lambda>s. list_all (carries domain) (hist (world s))"])
  show "list_all (carries domain) (hist (world s))" by (rule assms(2))
next
  fix s s'
  assume "list_all (carries domain) (hist (world s))" "loop_iter e domain s = Inl s'"
  then show "list_all (carries domain) (hist (world s'))"
    using loop_iter_carries [of domain s e] by simp
next
  fix s res
  assume "list_all (carries domain) (hist (world s))" "loop_iter e domain s = Inr res"
  then show "list_all (carries domain) (hist (snd res))"
    using loop_iter_carries [of domain s e] by simp
qed

lemma nx1_first_pass:
  "loop_iter env_nx1 d (init_state d) =
     Inl \<lparr>next_ns_list = [''199.9.14.201'', ''192.33.4.12'', ''199.7.91.13'', ''192.203.230.10''],
          stage = ROOT,
          world = \<lparr>hist = [SendQuery ''198.41.0.4'' d],
                   out = [LookupStart d, Querying ROOT ''198.41.0.4'', NoResponse ROOT ''198.41.0.4'']\<rparr>\<rparr>"
  by (simp add: init_state_def loop_iter_def send_dns_query_def env_nx1_def mk_query_def
      print_def called_def RECORD_TYPE_def)

lemma nx1_second_pass:
  "loop_iter env_nx1 d
     \<lparr>next_ns_list = [''199.9.14.201'', ''192.33.4.12'', ''199.7.91.13'', ''192.203.230.10''],
      stage = ROOT,
      world = \<lparr>hist = [SendQuery ''198.41.0.4'' d],
               out = [LookupStart d, Querying ROOT ''198.41.0.4'', NoResponse ROOT ''198.41.0.4'']\<rparr>\<rparr>
   = Inr (NonExistent,
       \<lparr>hist = [SendQuery ''198.41.0.4'' d, SendQuery ''199.9.14.201'' d],
        out = [LookupStart d, Querying ROOT ''198.41.0.4'', NoResponse ROOT ''198.41.0.4'',
               Querying ROOT ''199.9.14.201'', NXDomainMsg d ''199.9.14.201'']\<rparr>)"
  by (simp add: loop_iter_def send_dns_query_def env_nx1_def mk_query_def
      print_def called_def RECORD_TYPE_def)

lemma nx1_run:
  "iterative_dns_lookup env_nx1 d = Some (NonExistent,
       \<lparr>hist = [SendQuery ''198.41.0.4'' d, SendQuery ''199.9.14.201'' d],
        out = [LookupStart d, Querying ROOT ''198.41.0.4'', NoResponse ROOT ''198.41.0.4'',
               Querying ROOT ''199.9.14.201'', NXDomainMsg d ''199.9.14.201'']\<rparr>)"
  by (simp add: iterative_dns_lookup_def loop_Inl [OF nx1_first_pass] loop_Inr [OF nx1_second_pass])

text \<open>
  C8 as stated: the name is stripped of its trailing dot before it is used. It fails for
  a name with a trailing dot: the queries carry the name as given.
\<close>

theorem domain_not_normalized_counterexample:
  "map_option (hist \<circ> snd) (iterative_dns_lookup env_nx1 ''example.com.'')
     = Some [SendQuery ''198.41.0.4'' ''example.com.'', SendQuery ''199.9.14.201'' ''example.com.'']
   \<and> rstrip_dot ''example.com.'' = ''example.com''
   \<and> \<not> list_all (carries (rstrip_dot ''example.com.''))
         [SendQuery ''198.41.0.4'' ''example.com.'', SendQuery ''199.9.14.201'' ''example.com.'']"
  by (simp add: nx1_run rstrip_dot_def)

text \<open>
  C8, amended: the name resolved is the string the caller passes, used as it is; it does
  not change during a run, and every transport query issued during the run, up to any
  pass and up to the return, carries exactly that string.
\<close>

theorem queries_carry_given_domain:
  "(iterations n e domain (init_state domain) = Some s
      \<longrightarrow> list_all (carries domain) (hist (world s)))
   \<and> (iterative_dns_lookup e domain = Some (oc, w')
      \<longrightarrow> list_all (carries domain) (hist w'))"
proof -
  have i: "list_all (carries domain) (hist (world (init_state domain)))"
    by (simp add: init_state_def)
  have "list_all (carries domain) (hist w')" if "iterative_dns_lookup e domain = Some (oc, w')"
    using loop_carries [OF _ i, of e "(oc, w')"] that by (simp add: iterative_dns_lookup_def)
  then show ?thesis
    using iterations_carries [OF _ i, of n e s] by blast
qed

theorem queries_carry_given_domain_witness:
  "\<exists>s w'. iterations 1 env_nx1 ''example.com.'' (init_state ''example.com.'') = Some s
      \<and> list_all (carries ''example.com.'') (hist (world s))
      \<and> iterative_dns_lookup env_nx1 ''example.com.'' = Some (NonExistent, w')
      \<and> list_all (carries ''example.com.'') (hist w')"
proof -
  let ?d = "''example.com.''"
  obtain s where s: "iterations 1 env_nx1 ?d (init_state ?d) = Some s"
    by (simp add: nx1_first_pass)
  obtain w' where w': "iterative_dns_lookup env_nx1 ?d = Some (NonExistent, w')"
    by (simp add: nx1_run)
  from queries_carry_given_domain [of 1 env_nx1 ?d s NonExistent w'] s w'
  show ?thesis by blast
qed

text \<open>
  C9 says that no exception reaches the caller of a run: the two wrappers turn every
  exception of the library into a failure value, and the run ends with one of the three
  outcomes. The wrappers do; the run does not. Reading the addresses of the glue is
  outside any \<^verbatim>\<open>try\<close>, and when the first root server sends a referral whose glue is an
  A set of class 5, the run ends after that one query with the exception
  \<^verbatim>\<open>AttributeError\<close>, having printed the hostname it extracted and no result.
\<close>

theorem class5_glue_raises:
  "iterative_dns_lookup env_class5 ''example.com''
     = Some (Raised AttributeError,
         \<lparr>hist = [SendQuery ''198.41.0.4'' ''example.com''],
          out = [LookupStart ''example.com'', Querying ROOT ''198.41.0.4'',
                 ExtractedNS ''a.gtld-servers.net'']\<rparr>)"
proof -
  have "loop_iter env_class5 ''example.com'' (init_state ''example.com'')
      = Inr (Raised AttributeError,
         \<lparr>hist = [SendQuery ''198.41.0.4'' ''example.com''],
          out = [LookupStart ''example.com'', Querying ROOT ''198.41.0.4'',
                 ExtractedNS ''a.gtld-servers.net'']\<rparr>)"
    by (simp add: loop_iter_def init_state_def send_dns_query_def env_class5_def mk_query_def
        RECORD_TYPE_def referral_class5_def extract_next_nameservers_def authority_step_def
        ns_step_def additional_step_cases rdtype_def rstrip_dot_def print_def called_def
        Let_def)
  then show ?thesis
    by (simp add: iterative_dns_lookup_def loop_Inr)
qed

end
